theory Spec2Isabelle
  imports Complex_Main "HOL-Library.Multiset"
begin

section \<open>Data model\<close>

text \<open>
  The particle store of one rank is the class \<open>ParticleSystem\<close> of
  \<^verbatim>\<open>include/ParticleSystem.h\<close>: nine parallel \<open>std::vector<double>\<close> and three scalars.
  A \<open>double\<close> is modelled as a \<open>real\<close>: comparisons are exact, arithmetic does not round,
  and there is neither NaN nor an infinity. The \<open>int\<close> counters are natural numbers
  (no counter of the code is ever decremented below zero), without the 32-bit bound.
  The fields carry the prefix \<open>ps_\<close>, as in the source's \<open>ps.x\<close>, \<open>ps.r2\<close>.
\<close>

record ParticleSystem =
  ps_name :: string
  ps_x :: "real list"
  ps_y :: "real list"
  ps_z :: "real list"
  ps_vx :: "real list"
  ps_vy :: "real list"
  ps_vz :: "real list"
  ps_q :: "real list"
  ps_Er :: "real list"
  ps_r2 :: "real list"
  ps_iqom :: real
  ps_n_particles :: nat
  ps_n_total :: int

text \<open>\<open>std::vector<double>::resize\<close>: truncate, or append value-initialised (zero) elements.\<close>

definition vec_resize :: "nat \<Rightarrow> real list \<Rightarrow> real list" where
  "vec_resize new_size v = take new_size v @ replicate (new_size - length v) 0"

definition resize :: "nat \<Rightarrow> ParticleSystem \<Rightarrow> ParticleSystem" where
  "resize new_size ps =
     ps\<lparr>ps_n_particles := new_size,
        ps_x := vec_resize new_size (ps_x ps),
        ps_y := vec_resize new_size (ps_y ps),
        ps_z := vec_resize new_size (ps_z ps),
        ps_vx := vec_resize new_size (ps_vx ps),
        ps_vy := vec_resize new_size (ps_vy ps),
        ps_vz := vec_resize new_size (ps_vz ps),
        ps_q := vec_resize new_size (ps_q ps),
        ps_Er := vec_resize new_size (ps_Er ps),
        ps_r2 := vec_resize new_size (ps_r2 ps)\<rparr>"

text \<open>The constructor: the scalars from the arguments, then \<open>resize(local_particles)\<close> on empty vectors.\<close>

definition ParticleSystem_ctor :: "nat \<Rightarrow> int \<Rightarrow> string \<Rightarrow> real \<Rightarrow> ParticleSystem" where
  "ParticleSystem_ctor local_particles total_particles species_name inv_qom =
     resize local_particles
       \<lparr>ps_name = species_name,
        ps_x = [], ps_y = [], ps_z = [], ps_vx = [], ps_vy = [], ps_vz = [],
        ps_q = [], ps_Er = [], ps_r2 = [],
        ps_iqom = inv_qom, ps_n_particles = local_particles, ps_n_total = total_particles\<rparr>"

text \<open>
  The class invariant that the constructor and \<open>resize\<close> establish: every vector has
  \<open>n_particles\<close> elements. The loops of the code index the vectors up to \<open>n_particles\<close>
  without a check, so outside this invariant the C++ is undefined.
\<close>

definition ps_wf :: "ParticleSystem \<Rightarrow> bool" where
  "ps_wf ps \<longleftrightarrow>
     length (ps_x ps) = ps_n_particles ps \<and> length (ps_y ps) = ps_n_particles ps \<and>
     length (ps_z ps) = ps_n_particles ps \<and> length (ps_vx ps) = ps_n_particles ps \<and>
     length (ps_vy ps) = ps_n_particles ps \<and> length (ps_vz ps) = ps_n_particles ps \<and>
     length (ps_q ps) = ps_n_particles ps \<and> length (ps_Er ps) = ps_n_particles ps \<and>
     length (ps_r2 ps) = ps_n_particles ps"

text \<open>\<open>ParticleSystem::computeSquareRadius\<close>: the loop \<open>r2[i] = x[i]*x[i] + y[i]*y[i] + z[i]*z[i]\<close>.\<close>

definition computeSquareRadius :: "ParticleSystem \<Rightarrow> ParticleSystem" where
  "computeSquareRadius ps =
     ps\<lparr>ps_r2 :=
          fold (\<lambda>i r2. r2[i := ps_x ps ! i * ps_x ps ! i + ps_y ps ! i * ps_y ps ! i
                                + ps_z ps ! i * ps_z ps ! i])
               [0..<ps_n_particles ps] (ps_r2 ps)\<rparr>"

text \<open>\<open>ParticleSystem::getMaxRadiusSquared\<close>: the running maximum starts at \<open>0.0\<close>.\<close>

definition getMaxRadiusSquared :: "ParticleSystem \<Rightarrow> real" where
  "getMaxRadiusSquared ps =
     fold (\<lambda>i max_r2. if ps_r2 ps ! i > max_r2 then ps_r2 ps ! i else max_r2)
          [0..<ps_n_particles ps] 0"

section \<open>The ranks and the collectives\<close>

text \<open>
  The program runs \<open>size\<close> processes in lock step; every rank executes the same function and
  meets the others at the collectives. The global state is the list of the ranks' shells,
  rank \<open>p\<close> at index \<open>p\<close>, and \<open>size\<close> is its length. A collective is a function of the
  list of the values the ranks contribute.
\<close>

type_synonym shells = "ParticleSystem list"

definition shells_wf :: "shells \<Rightarrow> bool" where
  "shells_wf st \<longleftrightarrow> list_all ps_wf st"

text \<open>\<open>MPI_Exscan\<close> with \<open>MPI_SUM\<close>: rank \<open>r\<close> receives the sum over the ranks below \<open>r\<close>.\<close>

definition MPI_Exscan_sum :: "real list \<Rightarrow> nat \<Rightarrow> real" where
  "MPI_Exscan_sum contrib rank = sum_list (take rank contrib)"

section \<open>The radial field solver\<close>

text \<open>Step 1 of \<open>updateElectricFieldParallel\<close>: \<open>local_sum += ps.q[i]\<close>.\<close>

definition local_sum :: "ParticleSystem \<Rightarrow> real" where
  "local_sum ps = fold (\<lambda>i s. s + ps_q ps ! i) [0..<ps_n_particles ps] 0"

text \<open>
  The literal \<open>1e-30\<close> of the zero-radius guard. The compiler reads it as the \<open>double\<close>
  nearest to \<open>10^-30\<close>, which is \<open>0x1.4484bfeebc2a0p-100 = 178405961588245 / 2^147\<close> and lies
  strictly above \<open>10^-30\<close>; the guard compares \<open>r2[i]\<close> with that \<open>double\<close>.
\<close>

definition lit_1e_30 :: real where
  "lit_1e_30 = 178405961588245 / 2 ^ 147"

text \<open>
  Step 3: the sweep carries \<open>cumulative\<close> and writes \<open>Er[i]\<close>; the guard is \<open>r2[i] > 1e-30\<close>.
\<close>

definition Er_step :: "ParticleSystem \<Rightarrow> nat \<Rightarrow> real \<times> real list \<Rightarrow> real \<times> real list" where
  "Er_step ps i = (\<lambda>(cumulative, Er).
     let cumulative = cumulative + ps_q ps ! i
     in (cumulative,
         Er[i := (if ps_r2 ps ! i > lit_1e_30 then cumulative / ps_r2 ps ! i else 0)]))"

definition Er_sweep :: "ParticleSystem \<Rightarrow> real \<Rightarrow> real list" where
  "Er_sweep ps prefix_sum =
     snd (fold (Er_step ps) [0..<ps_n_particles ps] (prefix_sum, ps_Er ps))"

text \<open>
  One rank's call: \<open>exscan\<close> is what \<open>MPI_Exscan\<close> delivered; rank 0 overwrites it with \<open>0.0\<close>.
\<close>

definition updateElectricField_rank :: "nat \<Rightarrow> real \<Rightarrow> ParticleSystem \<Rightarrow> ParticleSystem" where
  "updateElectricField_rank rank exscan ps =
     (let prefix_sum = (if rank = 0 then 0 else exscan)
      in ps\<lparr>ps_Er := Er_sweep ps prefix_sum\<rparr>)"

definition updateElectricFieldParallel :: "shells \<Rightarrow> shells" where
  "updateElectricFieldParallel st =
     map (\<lambda>rank. updateElectricField_rank rank (MPI_Exscan_sum (map local_sum st) rank) (st ! rank))
         [0..<length st]"

text \<open>
  The value the sweep leaves at index \<open>k\<close> when it starts from the prefix \<open>c\<close> (used to
  describe the loop in closed form).
\<close>

definition Er_value :: "ParticleSystem \<Rightarrow> real \<Rightarrow> nat \<Rightarrow> real" where
  "Er_value ps c k =
     (if ps_r2 ps ! k > lit_1e_30
      then (c + (\<Sum>j\<leftarrow>[0..<Suc k]. ps_q ps ! j)) / ps_r2 ps ! k else 0)"

text \<open>The shell invariants I1 (sorted shell) and I2 (shells ordered by rank) of the specification.\<close>

definition I1 :: "shells \<Rightarrow> bool" where
  "I1 st \<longleftrightarrow> (\<forall>ps \<in> set st. sorted (ps_r2 ps))"

definition I2 :: "shells \<Rightarrow> bool" where
  "I2 st \<longleftrightarrow>
     (\<forall>b \<in> set [0..<length st]. \<forall>a \<in> set [0..<b].
        \<forall>v \<in> set (ps_r2 (st ! a)). \<forall>w \<in> set (ps_r2 (st ! b)). v \<le> w)"

text \<open>
  The enclosed charge of particle \<open>i\<close> of rank \<open>p\<close>, as the specification words it: the charges of
  the particles of the lower ranks and of this rank up to and including \<open>i\<close>, those whose \<open>r2\<close>
  is at most \<open>r2[i]\<close>.
\<close>

definition charge_below :: "real \<Rightarrow> ParticleSystem \<Rightarrow> nat \<Rightarrow> real" where
  "charge_below bound ps k =
     (\<Sum>j \<leftarrow> [0..<k]. if ps_r2 ps ! j \<le> bound then ps_q ps ! j else 0)"

definition Q_enc :: "shells \<Rightarrow> nat \<Rightarrow> nat \<Rightarrow> real" where
  "Q_enc st p i =
     (let bound = ps_r2 (st ! p) ! i
      in (\<Sum>p' \<leftarrow> [0..<p]. charge_below bound (st ! p') (ps_n_particles (st ! p')))
         + charge_below bound (st ! p) (Suc i))"

section \<open>The standard library the redistributor calls\<close>

text \<open>The element of the k-way merge queue, with its \<open>operator>\<close>, which compares \<open>r2\<close> only.\<close>

record MergeElement =
  me_r2 :: real
  me_source_idx :: nat
  me_chunk_id :: nat

definition MergeElement_gt :: "MergeElement \<Rightarrow> MergeElement \<Rightarrow> bool" where
  "MergeElement_gt a other \<longleftrightarrow> me_r2 a > me_r2 other"

text \<open>
  \<open>sortParticlesParallel\<close> calls \<open>std::sort\<close> on the index vector and, through
  \<open>std::priority_queue\<close>, \<open>std::push_heap\<close> and \<open>std::pop_heap\<close>. The C++ standard fixes what
  these produce only up to the order of equivalent elements, and their code is not part of
  the repository, so they are parameters of the model. Each takes the comparator the code
  passes and the range it works on and returns the range as it leaves it.
\<close>

record stdlib =
  std_sort :: "(nat \<Rightarrow> nat \<Rightarrow> bool) \<Rightarrow> nat list \<Rightarrow> nat list"
  std_push_heap :: "(MergeElement \<Rightarrow> MergeElement \<Rightarrow> bool) \<Rightarrow> MergeElement list \<Rightarrow> MergeElement list"
  std_pop_heap :: "(MergeElement \<Rightarrow> MergeElement \<Rightarrow> bool) \<Rightarrow> MergeElement list \<Rightarrow> MergeElement list"

text \<open>
  A range is a heap with respect to \<open>cmp\<close> when no element is \<open>cmp\<close>-below its child; the
  parent of position \<open>i\<close> is \<open>(i - 1) / 2\<close>.
\<close>

definition is_heap :: "('a \<Rightarrow> 'a \<Rightarrow> bool) \<Rightarrow> 'a list \<Rightarrow> bool" where
  "is_heap cmp c \<longleftrightarrow> (\<forall>i \<in> set [1..<length c]. \<not> cmp (c ! ((i - 1) div 2)) (c ! i))"

text \<open>
  What the standard guarantees of the three functions, for the comparators of this program:
  \<open>std::sort\<close> with \<open>key a < key b\<close> permutes the range into non-decreasing keys;
  \<open>std::push_heap\<close> on a range whose all but last elements form a heap permutes it into a
  heap; \<open>std::pop_heap\<close> on a non-empty heap moves the first element to the end and
  permutes the others into a heap.
\<close>

definition stdlib_ok :: "stdlib \<Rightarrow> bool" where
  "stdlib_ok lib \<longleftrightarrow>
     (\<forall>(key :: nat \<Rightarrow> real) v.
        mset (std_sort lib (\<lambda>a b. key a < key b) v) = mset v \<and>
        sorted (map key (std_sort lib (\<lambda>a b. key a < key b) v))) \<and>
     (\<forall>c. c \<noteq> [] \<and> is_heap MergeElement_gt (butlast c) \<longrightarrow>
        mset (std_push_heap lib MergeElement_gt c) = mset c \<and>
        is_heap MergeElement_gt (std_push_heap lib MergeElement_gt c)) \<and>
     (\<forall>c. c \<noteq> [] \<and> is_heap MergeElement_gt c \<longrightarrow>
        mset (std_pop_heap lib MergeElement_gt c) = mset c \<and>
        last (std_pop_heap lib MergeElement_gt c) = hd c \<and>
        is_heap MergeElement_gt (butlast (std_pop_heap lib MergeElement_gt c)))"

text \<open>
  \<open>std::priority_queue<MergeElement, std::vector<MergeElement>, std::greater<MergeElement>>\<close>:
  the container is the vector \<open>c\<close>; \<open>push\<close> is \<open>push_back\<close> and \<open>push_heap\<close>, \<open>top\<close> is
  \<open>front\<close>, \<open>pop\<close> is \<open>pop_heap\<close> and \<open>pop_back\<close>. \<open>std::greater\<close> calls \<open>operator>\<close>.
\<close>

definition pq_push :: "stdlib \<Rightarrow> MergeElement \<Rightarrow> MergeElement list \<Rightarrow> MergeElement list" where
  "pq_push lib elem c = std_push_heap lib MergeElement_gt (c @ [elem])"

definition pq_top :: "MergeElement list \<Rightarrow> MergeElement" where
  "pq_top c = hd c"

definition pq_pop :: "stdlib \<Rightarrow> MergeElement list \<Rightarrow> MergeElement list" where
  "pq_pop lib c = butlast (std_pop_heap lib MergeElement_gt c)"

text \<open>
  \<open>std::lower_bound\<close> on a range partitioned by \<open>element < value\<close> returns the first position
  whose element is not below the value (the splitters are sorted, see \<open>splitters_sorted\<close>).
\<close>

definition lower_bound :: "real list \<Rightarrow> real \<Rightarrow> nat" where
  "lower_bound v val = length (takeWhile (\<lambda>e. e < val) v)"

text \<open>The collectives of the redistributor, each as the receiving rank sees it.\<close>

definition MPI_Allreduce_MIN :: "real list \<Rightarrow> real" where
  "MPI_Allreduce_MIN contrib = fold min (tl contrib) (hd contrib)"

definition MPI_Allreduce_MAX :: "real list \<Rightarrow> real" where
  "MPI_Allreduce_MAX contrib = fold max (tl contrib) (hd contrib)"

definition MPI_Allreduce_SUM_vec :: "nat \<Rightarrow> nat list list \<Rightarrow> nat list" where
  "MPI_Allreduce_SUM_vec cnt contrib = map (\<lambda>b. sum_list (map (\<lambda>h. h ! b) contrib)) [0..<cnt]"

definition MPI_Alltoall :: "nat list list \<Rightarrow> nat \<Rightarrow> nat list" where
  "MPI_Alltoall send rank = map (\<lambda>s. send ! s ! rank) [0..<length send]"

text \<open>Writing a received block into the receive buffer at a displacement.\<close>

definition place :: "real list \<Rightarrow> nat \<Rightarrow> real list \<Rightarrow> real list" where
  "place buf displ block = take displ buf @ block @ drop (displ + length block) buf"

text \<open>
  \<open>MPI_Alltoallv\<close> on rank \<open>rank\<close>: from every source \<open>s\<close> the block of \<open>sendcounts[rank]\<close>
  elements at \<open>sdispls[rank]\<close> of the source's send buffer arrives at \<open>rdispls[s]\<close>.
\<close>

definition MPI_Alltoallv ::
  "real list list \<Rightarrow> nat list list \<Rightarrow> nat list list \<Rightarrow> real list \<Rightarrow> nat list \<Rightarrow> nat \<Rightarrow> real list" where
  "MPI_Alltoallv sendbufs sendcounts sdispls recvbuf rdispls rank =
     fold (\<lambda>s buf. place buf (rdispls ! s)
                     (take (sendcounts ! s ! rank) (drop (sdispls ! s ! rank) (sendbufs ! s))))
          [0..<length sendbufs] recvbuf"

section \<open>The shell redistributor\<close>

definition NUM_BINS :: nat where
  "NUM_BINS = 1024"

definition num_fields :: nat where
  "num_fields = 9"

text \<open>
  \<open>std::numeric_limits<double>::max()\<close>; \<open>lowest()\<close> is its negation. The literal \<open>1e-15\<close> is the
  \<open>double\<close> nearest to \<open>10^-15\<close>, \<open>0x1.203af9ee75616p-50 = 2535301200456459 / 2^101\<close>.
\<close>

definition DBL_MAX :: real where
  "DBL_MAX = (2 - 1 / 2 ^ 52) * 2 ^ 1023"

definition lit_1e_15 :: real where
  "lit_1e_15 = 2535301200456459 / 2 ^ 101"

text \<open>The lambda \<open>reorder\<close>: \<open>tmp[i] = arr[indices[i]]\<close>, then swap; nothing when \<open>n = 0\<close>.\<close>

definition reorder :: "nat list \<Rightarrow> nat \<Rightarrow> real list \<Rightarrow> real list" where
  "reorder indices n arr = (if n = 0 then arr else map (\<lambda>i. arr ! (indices ! i)) [0..<n])"

text \<open>Steps 1 and 2: recompute \<open>r2\<close>, sort the indices by \<open>r2\<close>, reorder the nine arrays.\<close>

definition local_sort :: "stdlib \<Rightarrow> ParticleSystem \<Rightarrow> ParticleSystem" where
  "local_sort lib ps0 =
     (let ps = computeSquareRadius ps0;
          n = ps_n_particles ps;
          indices = std_sort lib (\<lambda>a b. ps_r2 ps ! a < ps_r2 ps ! b) [0..<n]
      in ps\<lparr>ps_x := reorder indices n (ps_x ps),
            ps_y := reorder indices n (ps_y ps),
            ps_z := reorder indices n (ps_z ps),
            ps_vx := reorder indices n (ps_vx ps),
            ps_vy := reorder indices n (ps_vy ps),
            ps_vz := reorder indices n (ps_vz ps),
            ps_q := reorder indices n (ps_q ps),
            ps_Er := reorder indices n (ps_Er ps),
            ps_r2 := reorder indices n (ps_r2 ps)\<rparr>)"

text \<open>Step 3: the local extrema that enter the two \<open>MPI_Allreduce\<close> calls.\<close>

definition r2_min_local :: "ParticleSystem \<Rightarrow> real" where
  "r2_min_local ps = (if ps_n_particles ps > 0 then ps_r2 ps ! 0 else DBL_MAX)"

definition r2_max_local :: "ParticleSystem \<Rightarrow> real" where
  "r2_max_local ps =
     (if ps_n_particles ps > 0 then ps_r2 ps ! (ps_n_particles ps - 1) else - DBL_MAX)"

text \<open>The widening of the range when all particles are at the same radius.\<close>

definition widen :: "real \<Rightarrow> real \<Rightarrow> real" where
  "widen r2_min_global r2_max_global =
     (if r2_max_global - r2_min_global < lit_1e_15 then r2_min_global + 1 else r2_max_global)"

text \<open>The conversion \<open>(int)\<close> of a \<open>double\<close> truncates toward zero.\<close>

definition double_to_int :: "real \<Rightarrow> int" where
  "double_to_int v = (if v \<ge> 0 then \<lfloor>v\<rfloor> else \<lceil>v\<rceil>)"

definition bin_of :: "real \<Rightarrow> real \<Rightarrow> real \<Rightarrow> nat" where
  "bin_of r2_min_global bin_width v =
     (let bin = double_to_int ((v - r2_min_global) / bin_width)
      in nat (max 0 (min bin (int NUM_BINS - 1))))"

definition local_hist :: "real \<Rightarrow> real \<Rightarrow> ParticleSystem \<Rightarrow> nat list" where
  "local_hist r2_min_global bin_width ps =
     fold (\<lambda>i hist. let bin = bin_of r2_min_global bin_width (ps_r2 ps ! i)
                     in hist[bin := hist ! bin + 1])
          [0..<ps_n_particles ps] (replicate NUM_BINS 0)"

text \<open>
  The splitter loop \<open>for (b = 0; b < NUM_BINS && splitter_idx < size - 1; b++)\<close>, over the
  bins still to visit; the state is \<open>(cumsum, splitter_idx, splitters)\<close>.
\<close>

fun splitter_loop ::
  "nat \<Rightarrow> real \<Rightarrow> real \<Rightarrow> nat list \<Rightarrow> nat \<Rightarrow> nat list \<Rightarrow> nat \<times> nat \<times> real list \<Rightarrow> nat \<times> nat \<times> real list" where
  "splitter_loop mpi_size r2_min_global bin_width global_hist target_per_rank [] s = s"
| "splitter_loop mpi_size r2_min_global bin_width global_hist target_per_rank (b # bs)
     (cumsum, splitter_idx, splitters) =
     (if splitter_idx < mpi_size - 1 then
        (let cumsum = cumsum + global_hist ! b
         in if cumsum \<ge> target_per_rank * (splitter_idx + 1)
            then splitter_loop mpi_size r2_min_global bin_width global_hist target_per_rank bs
                   (cumsum, splitter_idx + 1,
                    splitters[splitter_idx := r2_min_global + (real b + 1) * bin_width])
            else splitter_loop mpi_size r2_min_global bin_width global_hist target_per_rank bs
                   (cumsum, splitter_idx, splitters))
      else (cumsum, splitter_idx, splitters))"

text \<open>
  The splitters: ceiling division for the target, the loop over the bins, then the
  remaining positions filled with \<open>r2_max_global\<close>.
\<close>

definition compute_splitters :: "nat \<Rightarrow> real \<Rightarrow> real \<Rightarrow> real \<Rightarrow> nat list \<Rightarrow> real list" where
  "compute_splitters mpi_size r2_min_global r2_max_global bin_width global_hist =
     (let total = sum_list global_hist;
          target_per_rank = (total + mpi_size - 1) div mpi_size;
          (cumsum, splitter_idx, splitters) =
             splitter_loop mpi_size r2_min_global bin_width global_hist target_per_rank
               [0..<NUM_BINS] (0, 0, replicate (mpi_size - 1) 0)
      in fold (\<lambda>k spl. spl[k := r2_max_global]) [splitter_idx..<mpi_size - 1] splitters)"

text \<open>Step 4: the destination of every local particle, the buckets and \<open>send_counts\<close>.\<close>

definition bucketize :: "real list \<Rightarrow> nat \<Rightarrow> ParticleSystem \<Rightarrow> nat list list \<times> nat list" where
  "bucketize splitters mpi_size ps =
     fold (\<lambda>i (buckets, send_counts).
             let dest = lower_bound splitters (ps_r2 ps ! i)
             in (buckets[dest := buckets ! dest @ [i]],
                 send_counts[dest := send_counts ! dest + 1]))
          [0..<ps_n_particles ps] (replicate mpi_size [], replicate mpi_size 0)"

text \<open>Step 5: \<open>displs[i] = displs[i - 1] + counts[i - 1]\<close>, and the totals.\<close>

definition displs_of :: "nat \<Rightarrow> nat list \<Rightarrow> nat list" where
  "displs_of mpi_size counts =
     fold (\<lambda>i displs. displs[i := displs ! (i - 1) + counts ! (i - 1)])
          [1..<mpi_size] (replicate mpi_size 0)"

definition total_of :: "nat \<Rightarrow> nat list \<Rightarrow> nat list \<Rightarrow> nat" where
  "total_of mpi_size displs counts =
     (if mpi_size > 0 then displs ! (mpi_size - 1) + counts ! (mpi_size - 1) else 0)"

text \<open>Step 6: the interleaved record of nine doubles, and the send buffer in destination order.\<close>

definition particle_record :: "ParticleSystem \<Rightarrow> nat \<Rightarrow> real list" where
  "particle_record ps idx =
     [ps_x ps ! idx, ps_y ps ! idx, ps_z ps ! idx, ps_vx ps ! idx, ps_vy ps ! idx,
      ps_vz ps ! idx, ps_q ps ! idx, ps_Er ps ! idx, ps_r2 ps ! idx]"

definition pack :: "ParticleSystem \<Rightarrow> nat list list \<Rightarrow> real list" where
  "pack ps buckets = concat (map (particle_record ps) (concat buckets))"

definition packed :: "nat list \<Rightarrow> nat list" where
  "packed counts = map (\<lambda>c. c * num_fields) counts"

text \<open>Step 8: field \<open>k\<close> of the received records, \<open>recv[i] = recv_buf[i * num_fields + k]\<close>.\<close>

definition unpack :: "nat \<Rightarrow> nat \<Rightarrow> real list \<Rightarrow> real list" where
  "unpack k total_recv recv_buf = map (\<lambda>i. recv_buf ! (i * num_fields + k)) [0..<total_recv]"

text \<open>
  Step 9, the merge loop \<open>while (!pq.empty())\<close>. The first argument counts the free slots of
  \<open>merge_order\<close>: the vector has \<open>total_recv\<close> elements, and the model returns \<open>None\<close> where the
  loop would write past its end. The result is the list of the source indices written.
\<close>

fun merge_loop ::
  "stdlib \<Rightarrow> real list \<Rightarrow> nat list \<Rightarrow> nat list \<Rightarrow> nat \<Rightarrow> MergeElement list \<Rightarrow> nat list \<Rightarrow> nat list option" where
  "merge_loop lib recv_r2 recv_displs recv_counts 0 pq chunk_pos =
     (if pq = [] then Some [] else None)"
| "merge_loop lib recv_r2 recv_displs recv_counts (Suc free) pq chunk_pos =
     (if pq = [] then Some []
      else
        let top = pq_top pq;
            pq = pq_pop lib pq;
            c = me_chunk_id top
        in if chunk_pos ! c < recv_displs ! c + recv_counts ! c
           then
             let next_elem = \<lparr>me_r2 = recv_r2 ! (chunk_pos ! c),
                              me_source_idx = chunk_pos ! c, me_chunk_id = c\<rparr>
             in map_option ((#) (me_source_idx top))
                  (merge_loop lib recv_r2 recv_displs recv_counts free
                     (pq_push lib next_elem pq) (chunk_pos[c := chunk_pos ! c + 1]))
           else map_option ((#) (me_source_idx top))
                  (merge_loop lib recv_r2 recv_displs recv_counts free pq chunk_pos))"

text \<open>
  The initialisation of the merge: \<open>chunk_pos[c] = recv_displs[c]\<close>, then for every non-empty
  chunk its first element is pushed and the chunk's position advanced.
\<close>

definition merge_init_step ::
  "stdlib \<Rightarrow> real list \<Rightarrow> nat list \<Rightarrow> nat list \<Rightarrow> nat
     \<Rightarrow> MergeElement list \<times> nat list \<Rightarrow> MergeElement list \<times> nat list" where
  "merge_init_step lib recv_r2 recv_displs recv_counts c = (\<lambda>(pq, chunk_pos).
     if recv_counts ! c > 0
     then (pq_push lib \<lparr>me_r2 = recv_r2 ! (recv_displs ! c),
                        me_source_idx = recv_displs ! c, me_chunk_id = c\<rparr> pq,
           chunk_pos[c := chunk_pos ! c + 1])
     else (pq, chunk_pos))"

definition merge_init ::
  "stdlib \<Rightarrow> real list \<Rightarrow> nat list \<Rightarrow> nat list \<Rightarrow> nat \<Rightarrow> MergeElement list \<times> nat list" where
  "merge_init lib recv_r2 recv_displs recv_counts mpi_size =
     fold (merge_init_step lib recv_r2 recv_displs recv_counts)
          [0..<mpi_size] ([], map (\<lambda>c. recv_displs ! c) [0..<mpi_size])"

text \<open>
  \<open>merge_order\<close>: a vector of \<open>total_recv\<close> zeros, filled from the front by the merge when
  \<open>total_recv > 0\<close>.
\<close>

definition kway_merge ::
  "stdlib \<Rightarrow> real list \<Rightarrow> nat list \<Rightarrow> nat list \<Rightarrow> nat \<Rightarrow> nat \<Rightarrow> nat list option" where
  "kway_merge lib recv_r2 recv_displs recv_counts mpi_size total_recv =
     (if total_recv > 0 then
        (let (pq, chunk_pos) = merge_init lib recv_r2 recv_displs recv_counts mpi_size
         in map_option (\<lambda>written. written @ replicate (total_recv - length written) 0)
              (merge_loop lib recv_r2 recv_displs recv_counts total_recv pq chunk_pos))
      else Some [])"

text \<open>Step 10: \<open>ps.x[i] = recv_x[merge_order[i]]\<close> for \<open>i < total_recv\<close>, after the resize.\<close>

definition gather :: "nat list \<Rightarrow> nat \<Rightarrow> real list \<Rightarrow> real list \<Rightarrow> real list" where
  "gather merge_order total_recv recv arr =
     fold (\<lambda>i a. a[i := recv ! (merge_order ! i)]) [0..<total_recv] arr"

definition install :: "nat list \<Rightarrow> nat \<Rightarrow> real list \<Rightarrow> ParticleSystem \<Rightarrow> ParticleSystem" where
  "install merge_order total_recv recv_buf ps0 =
     (let ps = resize total_recv ps0
      in ps\<lparr>ps_x := gather merge_order total_recv (unpack 0 total_recv recv_buf) (ps_x ps),
            ps_y := gather merge_order total_recv (unpack 1 total_recv recv_buf) (ps_y ps),
            ps_z := gather merge_order total_recv (unpack 2 total_recv recv_buf) (ps_z ps),
            ps_vx := gather merge_order total_recv (unpack 3 total_recv recv_buf) (ps_vx ps),
            ps_vy := gather merge_order total_recv (unpack 4 total_recv recv_buf) (ps_vy ps),
            ps_vz := gather merge_order total_recv (unpack 5 total_recv recv_buf) (ps_vz ps),
            ps_q := gather merge_order total_recv (unpack 6 total_recv recv_buf) (ps_q ps),
            ps_Er := gather merge_order total_recv (unpack 7 total_recv recv_buf) (ps_Er ps),
            ps_r2 := gather merge_order total_recv (unpack 8 total_recv recv_buf) (ps_r2 ps)\<rparr>)"

text \<open>
  The values every rank holds after the collectives of step 3: the global range (widened),
  the bin width, the global histogram and the splitters. \<open>sorted_st\<close> is the list of the
  shells after the local sort.
\<close>

definition r2_min_global :: "shells \<Rightarrow> real" where
  "r2_min_global sorted_st = MPI_Allreduce_MIN (map r2_min_local sorted_st)"

definition r2_max_global :: "shells \<Rightarrow> real" where
  "r2_max_global sorted_st =
     widen (r2_min_global sorted_st) (MPI_Allreduce_MAX (map r2_max_local sorted_st))"

definition bin_width :: "shells \<Rightarrow> real" where
  "bin_width sorted_st = (r2_max_global sorted_st - r2_min_global sorted_st) / real NUM_BINS"

definition global_hist :: "shells \<Rightarrow> nat list" where
  "global_hist sorted_st =
     MPI_Allreduce_SUM_vec NUM_BINS
       (map (local_hist (r2_min_global sorted_st) (bin_width sorted_st)) sorted_st)"

definition splitters_of :: "shells \<Rightarrow> real list" where
  "splitters_of sorted_st =
     compute_splitters (length sorted_st) (r2_min_global sorted_st) (r2_max_global sorted_st)
       (bin_width sorted_st) (global_hist sorted_st)"

text \<open>\<open>send_counts\<close> of every rank, as step 4 leaves it.\<close>

definition send_counts_of :: "shells \<Rightarrow> nat list list" where
  "send_counts_of sorted_st =
     map (\<lambda>ps. snd (bucketize (splitters_of sorted_st) (length sorted_st) ps)) sorted_st"

text \<open>Steps 5 to 10 on rank \<open>rank\<close>, given every rank's shell after the local sort.\<close>

definition exchange_rank :: "stdlib \<Rightarrow> shells \<Rightarrow> nat \<Rightarrow> ParticleSystem option" where
  "exchange_rank lib sorted_st rank =
     (let mpi_size = length sorted_st;
          splitters = splitters_of sorted_st;
          send_counts = send_counts_of sorted_st;
          send_displs = map (displs_of mpi_size) send_counts;
          send_bufs = map (\<lambda>ps. pack ps (fst (bucketize splitters mpi_size ps))) sorted_st;
          recv_counts = MPI_Alltoall send_counts rank;
          recv_displs = displs_of mpi_size recv_counts;
          total_recv = total_of mpi_size recv_displs recv_counts;
          recv_buf = MPI_Alltoallv send_bufs (map packed send_counts) (map packed send_displs)
                       (replicate (total_recv * num_fields) 0) (packed recv_displs) rank
      in map_option (\<lambda>merge_order. install merge_order total_recv recv_buf (sorted_st ! rank))
           (kway_merge lib (unpack 8 total_recv recv_buf) recv_displs recv_counts
              mpi_size total_recv))"

text \<open>Collecting the ranks' results: \<open>None\<close> as soon as one rank has none.\<close>

fun all_ranks :: "'a option list \<Rightarrow> 'a list option" where
  "all_ranks [] = Some []"
| "all_ranks (None # rs) = None"
| "all_ranks (Some r # rs) = map_option ((#) r) (all_ranks rs)"

text \<open>
  \<open>sortParticlesParallel\<close> on all ranks. With a single rank the function returns after the
  local sort (at once when the shell is empty); otherwise every rank goes through all steps.
\<close>

definition sortParticlesParallel :: "stdlib \<Rightarrow> shells \<Rightarrow> shells option" where
  "sortParticlesParallel lib st =
     (if length st = 1
      then Some (map (\<lambda>ps. if ps_n_particles ps = 0 then ps else local_sort lib ps) st)
      else let sorted_st = map (local_sort lib) st
           in all_ranks (map (exchange_rank lib sorted_st) [0..<length st]))"

section \<open>Concrete shells\<close>

text \<open>
  A shell as the start-up loop of \<open>main.cpp\<close> fills it: constructed with the number of
  particles, then positions and charges written, velocities zero, and the \<open>r2\<close> cache set
  to \<open>x*x + y*y + z*z\<close>. A particle is given as \<open>(x, y, z, q)\<close>.
\<close>

definition shell_at :: "(real \<times> real \<times> real \<times> real) list \<Rightarrow> int \<Rightarrow> ParticleSystem" where
  "shell_at pts n_global =
     (ParticleSystem_ctor (length pts) n_global ''electron'' 1)
       \<lparr>ps_x := map (\<lambda>(x, y, z, q). x) pts,
        ps_y := map (\<lambda>(x, y, z, q). y) pts,
        ps_z := map (\<lambda>(x, y, z, q). z) pts,
        ps_q := map (\<lambda>(x, y, z, q). q) pts,
        ps_r2 := map (\<lambda>(x, y, z, q). x * x + y * y + z * z) pts\<rparr>"

text \<open>Scenario S2 of the specification after the sort: rank 0 owns \<open>r2 = {1, 4}\<close>, rank 1 owns \<open>{9, 16}\<close>.\<close>

definition S2_sorted :: shells where
  "S2_sorted = [shell_at [(1, 0, 0, 1), (2, 0, 0, 1)] 4, shell_at [(3, 0, 0, 1), (4, 0, 0, 1)] 4]"

text \<open>One rank with one particle of charge 1 whose stored \<open>r2\<close> is the guard value itself.\<close>

definition at_guard :: shells where
  "at_guard = [(shell_at [(0, 0, 0, 1)] 1)\<lparr>ps_r2 := [lit_1e_30]\<rparr>]"

definition empty_shell :: ParticleSystem where
  "empty_shell = ParticleSystem_ctor 0 0 ''electron'' 1"

text \<open>
  A library that meets \<open>stdlib_ok\<close>, for running the model: a stable insertion sort for
  \<open>std::sort\<close>, and a heap that is kept sorted (a sorted range is a heap).
\<close>

fun insert_by :: "('a \<Rightarrow> 'a \<Rightarrow> bool) \<Rightarrow> 'a \<Rightarrow> 'a list \<Rightarrow> 'a list" where
  "insert_by lt x [] = [x]"
| "insert_by lt x (y # ys) = (if lt y x then y # insert_by lt x ys else x # y # ys)"

fun insertion_sort :: "('a \<Rightarrow> 'a \<Rightarrow> bool) \<Rightarrow> 'a list \<Rightarrow> 'a list" where
  "insertion_sort lt [] = []"
| "insertion_sort lt (x # xs) = insert_by lt x (insertion_sort lt xs)"

definition ref_lib :: stdlib where
  "ref_lib = \<lparr>std_sort = insertion_sort,
              std_push_heap = (\<lambda>cmp c. insertion_sort (\<lambda>a b. cmp b a) c),
              std_pop_heap = (\<lambda>cmp c. insertion_sort (\<lambda>a b. cmp b a) (tl c) @ [hd c])\<rparr>"

definition r2_of :: "ParticleSystem \<Rightarrow> nat \<Rightarrow> real" where
  "r2_of ps i = ps_x ps ! i * ps_x ps ! i + ps_y ps ! i * ps_y ps ! i + ps_z ps ! i * ps_z ps ! i"

text \<open>The shell as a list of particle records, in index order.\<close>

definition records :: "ParticleSystem \<Rightarrow> real list list" where
  "records ps = map (particle_record ps) [0..<ps_n_particles ps]"

definition splitter_inv :: "nat \<Rightarrow> real \<Rightarrow> real \<Rightarrow> nat \<Rightarrow> nat \<times> nat \<times> real list \<Rightarrow> bool" where
  "splitter_inv mpi_size r2min bw b = (\<lambda>(cumsum, idx, spl).
     idx \<le> mpi_size - 1 \<and> length spl = mpi_size - 1 \<and> sorted (take idx spl) \<and>
     (\<forall>s \<in> set (take idx spl). r2min < s \<and> s \<le> r2min + real b * bw))"

text \<open>The destination rank of local particle \<open>i\<close>, and the particles of a shell bound for \<open>d\<close>.\<close>

definition dest_of :: "real list \<Rightarrow> ParticleSystem \<Rightarrow> nat \<Rightarrow> nat" where
  "dest_of splitters ps i = lower_bound splitters (ps_r2 ps ! i)"

definition bucket_of :: "real list \<Rightarrow> ParticleSystem \<Rightarrow> nat \<Rightarrow> nat list" where
  "bucket_of splitters ps d = filter (\<lambda>i. dest_of splitters ps i = d) [0..<ps_n_particles ps]"

text \<open>
  The records rank \<open>p\<close> receives, source by source: from every rank \<open>s\<close> the records of the
  particles of its bucket \<open>p\<close>, in index order.
\<close>

definition recv_chunks :: "shells \<Rightarrow> nat \<Rightarrow> real list list list" where
  "recv_chunks sorted_st p =
     map (\<lambda>s. map (particle_record (sorted_st ! s))
                 (bucket_of (splitters_of sorted_st) (sorted_st ! s) p))
         [0..<length sorted_st]"

definition recv_records :: "shells \<Rightarrow> nat \<Rightarrow> real list list" where
  "recv_records sorted_st p = concat (recv_chunks sorted_st p)"

text \<open>The number of records rank \<open>p\<close> receives from every source: its \<open>recv_counts\<close>.\<close>

definition chunk_counts :: "shells \<Rightarrow> nat \<Rightarrow> nat list" where
  "chunk_counts sorted_st p = map length (recv_chunks sorted_st p)"

text \<open>
  For the merge: the queue element that stands for chunk \<open>c\<close> when the chunk's position is
  \<open>chunk_pos[c]\<close> (the element read last), the invariant of the merge loop with \<open>A\<close> the set
  of the chunks that have an element in the queue, and the source indices not yet written.
\<close>

definition elem_at :: "real list \<Rightarrow> nat list \<Rightarrow> nat \<Rightarrow> MergeElement" where
  "elem_at recv_r2 chunk_pos c =
     \<lparr>me_r2 = recv_r2 ! (chunk_pos ! c - 1), me_source_idx = chunk_pos ! c - 1, me_chunk_id = c\<rparr>"

definition merge_inv ::
  "real list \<Rightarrow> nat list \<Rightarrow> nat list \<Rightarrow> nat \<Rightarrow> nat set \<Rightarrow> MergeElement list \<Rightarrow> nat list \<Rightarrow> bool" where
  "merge_inv recv_r2 displs counts m A pq chunk_pos \<longleftrightarrow>
     finite A \<and> A \<subseteq> {..<m} \<and> length chunk_pos = m \<and> is_heap MergeElement_gt pq \<and>
     mset pq = image_mset (elem_at recv_r2 chunk_pos) (mset_set A) \<and>
     (\<forall>c \<in> A. displs ! c < chunk_pos ! c \<and> chunk_pos ! c \<le> displs ! c + counts ! c) \<and>
     (\<forall>c < m. c \<notin> A \<longrightarrow> chunk_pos ! c = displs ! c + counts ! c)"

definition unread :: "nat list \<Rightarrow> nat list \<Rightarrow> nat \<Rightarrow> nat list \<Rightarrow> nat multiset" where
  "unread displs counts m chunk_pos = (\<Sum>c \<in> {..<m}. mset [chunk_pos ! c..<displs ! c + counts ! c])"

definition remaining :: "nat list \<Rightarrow> nat list \<Rightarrow> nat \<Rightarrow> nat set \<Rightarrow> nat list \<Rightarrow> nat multiset" where
  "remaining displs counts m A chunk_pos =
     image_mset (\<lambda>c. chunk_pos ! c - 1) (mset_set A) + unread displs counts m chunk_pos"

definition chunks_sorted :: "real list \<Rightarrow> nat list \<Rightarrow> nat list \<Rightarrow> nat \<Rightarrow> bool" where
  "chunks_sorted recv_r2 displs counts m \<longleftrightarrow>
     (\<forall>c < m. \<forall>i j. displs ! c \<le> i \<and> i \<le> j \<and> j < displs ! c + counts ! c
                   \<longrightarrow> recv_r2 ! i \<le> recv_r2 ! j)"

text \<open>The chunks that have been given a queue element after \<open>k\<close> rounds of the initialisation.\<close>

definition started :: "nat list \<Rightarrow> nat \<Rightarrow> nat set" where
  "started counts k = {c. c < k \<and> counts ! c > 0}"

definition init_inv ::
  "real list \<Rightarrow> nat list \<Rightarrow> nat list \<Rightarrow> nat \<Rightarrow> nat \<Rightarrow> MergeElement list \<times> nat list \<Rightarrow> bool" where
  "init_inv recv_r2 displs counts m k = (\<lambda>(pq, chunk_pos).
     length chunk_pos = m \<and> is_heap MergeElement_gt pq \<and>
     mset pq = image_mset (elem_at recv_r2 chunk_pos) (mset_set (started counts k)) \<and>
     (\<forall>c < m. chunk_pos ! c = (if c \<in> started counts k then displs ! c + 1 else displs ! c)) \<and>
     remaining displs counts m (started counts k) chunk_pos = unread displs counts m displs)"

text \<open>A record whose \<open>r2\<close> entry is the squared radius of its position.\<close>

definition record_consistent :: "real list \<Rightarrow> bool" where
  "record_consistent r \<longleftrightarrow> r ! 8 = r ! 0 * r ! 0 + r ! 1 * r ! 1 + r ! 2 * r ! 2"

text \<open>
  The particle records of all ranks in rank order, with the \<open>r2\<close> entry recomputed from the
  position (the 9-tuples of claim C9).
\<close>

definition all_records :: "shells \<Rightarrow> real list list" where
  "all_records st = concat (map (\<lambda>ps. records (computeSquareRadius ps)) st)"

text \<open>
  Scenario S2 of the specification before the sort: rank 0 owns \<open>r2 = {16, 4}\<close>, rank 1 owns
  \<open>{1, 9}\<close>, every charge is 1.
\<close>

definition S2_init :: shells where
  "S2_init = [shell_at [(4, 0, 0, 1), (2, 0, 0, 1)] 4, shell_at [(1, 0, 0, 1), (3, 0, 0, 1)] 4]"

text \<open>
  Scenario S5 of the specification: three ranks, nine particles, every particle at
  \<open>r2 = 1.0\<close>; once spread 4, 2, 3 over the ranks and once 3, 3, 3.
\<close>

definition S5_init :: shells where
  "S5_init = [shell_at [(1, 0, 0, 1), (0, 1, 0, 1), (0, 0, 1, 1), (- 1, 0, 0, 1)] 9,
              shell_at [(1, 0, 0, 1), (0, 1, 0, 1)] 9,
              shell_at [(1, 0, 0, 1), (0, 1, 0, 1), (0, 0, 1, 1)] 9]"

definition S5_even :: shells where
  "S5_even = [shell_at [(1, 0, 0, 1), (0, 1, 0, 1), (0, 0, 1, 1)] 9,
              shell_at [(1, 0, 0, 1), (0, 1, 0, 1), (0, 0, 1, 1)] 9,
              shell_at [(1, 0, 0, 1), (0, 1, 0, 1), (0, 0, 1, 1)] 9]"

text \<open>Every particle of every rank is at the squared radius \<open>v\<close>.\<close>

definition all_at_radius :: "real \<Rightarrow> shells \<Rightarrow> bool" where
  "all_at_radius v st \<longleftrightarrow> (\<forall>ps \<in> set st. \<forall>i < ps_n_particles ps. r2_of ps i = v)"


text \<open>Two ranks with one particle each, both at \<open>r2 = 1.0\<close>: a globally sorted configuration.\<close>

definition sorted_pair :: shells where
  "sorted_pair = [shell_at [(1, 0, 0, 1)] 2, shell_at [(0, 1, 0, 1)] 2]"


text \<open>All \<open>r2\<close> values of all ranks, in rank order.\<close>

definition all_r2 :: "shells \<Rightarrow> real list" where
  "all_r2 sh = concat (map ps_r2 sh)"

text \<open>Every particle's squared radius is in the range of the finite \<open>double\<close> values.\<close>

definition finite_radii :: "shells \<Rightarrow> bool" where
  "finite_radii st \<longleftrightarrow> (\<forall>ps \<in> set st. \<forall>i < ps_n_particles ps. r2_of ps i \<le> DBL_MAX)"





text \<open>
  The heap functions as GNU libstdc++ implements them (\<open>bits/stl_heap.h\<close>), on the vector
  \<open>first\<close>. \<open>__push_heap\<close> moves the hole up while \<open>comp(parent, value)\<close> holds and then stores
  the value. \<open>__adjust_heap\<close> moves the hole down, each time to the second child or, when
  \<open>comp(second child, first child)\<close> holds, to the first child; when the length is even and the
  hole is left with a single child it moves there too; then it calls \<open>__push_heap\<close> from the hole.
  The indices are signed in C++: the test \<open>secondChild == (len - 2) / 2\<close> fails for \<open>len = 0\<close>,
  which \<open>2 \<le> len\<close> renders. \<open>push_heap\<close> pushes the last element from the last position;
  \<open>pop_heap\<close> on more than one element stores the first element at the end and adjusts the rest
  from the top with the former last element.
\<close>

function libstdcxx_push_heap_aux ::
  "('a \<Rightarrow> 'a \<Rightarrow> bool) \<Rightarrow> 'a list \<Rightarrow> nat \<Rightarrow> nat \<Rightarrow> 'a \<Rightarrow> 'a list" where
  "libstdcxx_push_heap_aux cmp first holeIndex topIndex v =
     (let parent = (holeIndex - 1) div 2
      in if holeIndex > topIndex \<and> cmp (first ! parent) v
         then libstdcxx_push_heap_aux cmp (first[holeIndex := first ! parent]) parent topIndex v
         else first[holeIndex := v])"
  by pat_completeness auto
termination
  by (relation "measure (\<lambda>(cmp, first, holeIndex, topIndex, v). holeIndex)") auto

function libstdcxx_adjust_loop ::
  "('a \<Rightarrow> 'a \<Rightarrow> bool) \<Rightarrow> 'a list \<Rightarrow> nat \<Rightarrow> nat \<Rightarrow> nat \<Rightarrow> 'a list \<times> nat \<times> nat" where
  "libstdcxx_adjust_loop cmp first holeIndex secondChild len =
     (if secondChild < (len - 1) div 2
      then let secondChild = 2 * (secondChild + 1);
               secondChild = (if cmp (first ! secondChild) (first ! (secondChild - 1))
                              then secondChild - 1 else secondChild)
           in libstdcxx_adjust_loop cmp (first[holeIndex := first ! secondChild])
                secondChild secondChild len
      else (first, holeIndex, secondChild))"
  by pat_completeness auto
termination
  by (relation "measure (\<lambda>(cmp, first, holeIndex, secondChild, len). len - secondChild)") auto

definition libstdcxx_adjust_heap ::
  "('a \<Rightarrow> 'a \<Rightarrow> bool) \<Rightarrow> 'a list \<Rightarrow> nat \<Rightarrow> nat \<Rightarrow> 'a \<Rightarrow> 'a list" where
  "libstdcxx_adjust_heap cmp first0 holeIndex0 len v =
     (let (first, holeIndex, secondChild) = libstdcxx_adjust_loop cmp first0 holeIndex0 holeIndex0 len;
          (first, holeIndex) =
            (if even len \<and> 2 \<le> len \<and> secondChild = (len - 2) div 2
             then (first[holeIndex := first ! (2 * (secondChild + 1) - 1)], 2 * (secondChild + 1) - 1)
             else (first, holeIndex))
      in libstdcxx_push_heap_aux cmp first holeIndex holeIndex0 v)"

definition libstdcxx_push_heap :: "('a \<Rightarrow> 'a \<Rightarrow> bool) \<Rightarrow> 'a list \<Rightarrow> 'a list" where
  "libstdcxx_push_heap cmp c = libstdcxx_push_heap_aux cmp c (length c - 1) 0 (c ! (length c - 1))"

definition libstdcxx_pop_heap :: "('a \<Rightarrow> 'a \<Rightarrow> bool) \<Rightarrow> 'a list \<Rightarrow> 'a list" where
  "libstdcxx_pop_heap cmp c =
     (if length c > 1
      then let last = length c - 1; v = c ! last
           in libstdcxx_adjust_heap cmp (c[last := c ! 0]) 0 last v
      else c)"

text \<open>
  A library with these heap functions. \<open>std::sort\<close> of libstdc++ sorts a range of at most 16
  elements by insertion alone, which leaves equal keys in their order.
\<close>

definition libstdcxx :: stdlib where
  "libstdcxx = \<lparr>std_sort = insertion_sort,
                std_push_heap = libstdcxx_push_heap,
                std_pop_heap = libstdcxx_pop_heap\<rparr>"


text \<open>
  Two ranks, three particles, all at \<open>r2 = 1.0\<close> and told apart by their positions: rank 0
  owns \<open>(1, 0, 0)\<close> and \<open>(0, 1, 0)\<close>, rank 1 owns \<open>(0, 0, 1)\<close>.
\<close>

definition tie_shells :: shells where
  "tie_shells = [shell_at [(1, 0, 0, 1), (0, 1, 0, 1)] 3, shell_at [(0, 0, 1, 1)] 3]"

text \<open>Position \<open>j\<close> of the receive buffer belongs to chunk \<open>c\<close>.\<close>

definition in_chunk :: "nat list \<Rightarrow> nat list \<Rightarrow> nat \<Rightarrow> nat \<Rightarrow> bool" where
  "in_chunk displs counts c j \<longleftrightarrow> displs ! c \<le> j \<and> j < displs ! c + counts ! c"

definition chunks_disjoint :: "nat list \<Rightarrow> nat list \<Rightarrow> nat \<Rightarrow> bool" where
  "chunks_disjoint displs counts m \<longleftrightarrow>
     (\<forall>c < m. \<forall>c' < m. c \<noteq> c' \<longrightarrow> (\<forall>j. in_chunk displs counts c j \<longrightarrow> \<not> in_chunk displs counts c' j))"

text \<open>
  The order of the specification: the chunk that holds position \<open>j\<close>, and a merge order that
  lists the positions by the pair \<open>(r2, chunk id)\<close>.
\<close>

definition chunk_of :: "nat list \<Rightarrow> nat list \<Rightarrow> nat \<Rightarrow> nat \<Rightarrow> nat" where
  "chunk_of displs counts m j = length (takeWhile (\<lambda>c. \<not> in_chunk displs counts c j) [0..<m])"

definition by_r2_then_chunk :: "real list \<Rightarrow> nat list \<Rightarrow> nat list \<Rightarrow> nat \<Rightarrow> nat list \<Rightarrow> bool" where
  "by_r2_then_chunk r2 displs counts m mo \<longleftrightarrow>
     sorted_wrt (\<lambda>i j. r2 ! i < r2 ! j \<or>
                      (r2 ! i = r2 ! j \<and> chunk_of displs counts m i \<le> chunk_of displs counts m j)) mo"

text \<open>
  For the heap functions: the first \<open>len\<close> elements form a heap; and they form a heap but
  for the element at \<open>hole\<close>, whose parent is not above its children (keys compared).
\<close>

definition heap_upto :: "('a \<Rightarrow> 'a \<Rightarrow> bool) \<Rightarrow> nat \<Rightarrow> 'a list \<Rightarrow> bool" where
  "heap_upto cmp len c \<longleftrightarrow> (\<forall>i. 1 \<le> i \<and> i < len \<longrightarrow> \<not> cmp (c ! ((i - 1) div 2)) (c ! i))"

definition hole_inv :: "('a \<Rightarrow> real) \<Rightarrow> nat \<Rightarrow> 'a list \<Rightarrow> nat \<Rightarrow> bool" where
  "hole_inv key len first hole \<longleftrightarrow>
     (\<forall>i. 1 \<le> i \<and> i < len \<and> i \<noteq> hole \<and> (i - 1) div 2 \<noteq> hole
          \<longrightarrow> key (first ! ((i - 1) div 2)) \<le> key (first ! i)) \<and>
     (1 \<le> hole \<longrightarrow>
        (\<forall>j. 1 \<le> j \<and> j < len \<and> (j - 1) div 2 = hole
             \<longrightarrow> key (first ! ((hole - 1) div 2)) \<le> key (first ! j)))"

definition above_children :: "('a \<Rightarrow> real) \<Rightarrow> nat \<Rightarrow> 'a list \<Rightarrow> nat \<Rightarrow> 'a \<Rightarrow> bool" where
  "above_children key len first hole v \<longleftrightarrow>
     (\<forall>j. 1 \<le> j \<and> j < len \<and> (j - 1) div 2 = hole \<longrightarrow> key v \<le> key (first ! j))"

section \<open>The particle shell: proofs\<close>

lemma if_gt_max: "(if a > M then a else M) = max a (M::real)"
  by (simp add: max_def)

lemma getMax_fold:
  "n \<le> length r \<Longrightarrow>
   fold (\<lambda>i m. if r ! i > m then r ! i else m) [0..<n] (m0::real) = Max (insert m0 (set (take n r)))"
proof (induction n)
  case 0 then show ?case by simp
next
  case (Suc n)
  then have n: "n < length r" by simp
  let ?M = "Max (insert m0 (set (take n r)))"
  have "fold (\<lambda>i m. if r ! i > m then r ! i else m) [0..<Suc n] m0
        = (if r ! n > ?M then r ! n else ?M)"
    using Suc by (simp del: Max_insert)
  also have "\<dots> = max (r ! n) ?M"
    by (rule if_gt_max)
  also have "\<dots> = Max (insert (r ! n) (insert m0 (set (take n r))))"
    by simp
  also have "insert (r ! n) (insert m0 (set (take n r))) = insert m0 (set (take (Suc n) r))"
    using n by (auto simp: take_Suc_conv_app_nth)
  finally show ?case .
qed

lemma shell_at_wf: "ps_wf (shell_at pts n)"
  by (simp add: shell_at_def ParticleSystem_ctor_def resize_def vec_resize_def ps_wf_def)

text \<open>
  C7, as the code has it. \<open>getMaxRadiusSquared\<close> starts its running maximum at \<open>0.0\<close>, so on a
  shell whose vectors have \<open>n_particles\<close> elements it returns the maximum of \<open>0.0\<close> and the
  \<open>r2\<close> values: the maximum of \<open>r2\<close> for a shell that holds a particle (a sum of squares is
  never negative), and \<open>0.0\<close> for the empty shell.
\<close>

theorem getMaxRadiusSquared_is_Max_with_zero:
  "ps_wf ps \<Longrightarrow> getMaxRadiusSquared ps = Max (insert 0 (set (ps_r2 ps)))"
  unfolding getMaxRadiusSquared_def using getMax_fold[of "ps_n_particles ps" "ps_r2 ps" 0]
  by (simp add: ps_wf_def)

theorem getMaxRadiusSquared_is_Max_with_zero_witness:
  "ps_wf (shell_at [(1, 0, 0, 1), (2, 0, 0, 1)] 2) \<and>
   getMaxRadiusSquared (shell_at [(1, 0, 0, 1), (2, 0, 0, 1)] 2) = 4"
  using getMaxRadiusSquared_is_Max_with_zero [of "shell_at [(1, 0, 0, 1), (2, 0, 0, 1)] 2"]
  by (simp add: shell_at_wf) (simp add: shell_at_def)

text \<open>
  C7, as the specification states it, fails on the empty shell: the claim promises negative
  infinity there, a value below every finite \<open>double\<close> and so below \<open>0.0\<close>; the code returns
  \<open>0.0\<close>.
\<close>

theorem getMaxRadiusSquared_empty_counterexample:
  "ps_n_particles empty_shell = 0 \<and> getMaxRadiusSquared empty_shell = 0 \<and>
   \<not> getMaxRadiusSquared empty_shell < 0"
  by (simp add: empty_shell_def ParticleSystem_ctor_def resize_def getMaxRadiusSquared_def)

section \<open>The radial field solver: proofs\<close>

lemma local_sum_eq: "local_sum ps = (\<Sum>j\<leftarrow>[0..<ps_n_particles ps]. ps_q ps ! j)"
proof -
  have "fold (\<lambda>i s. s + ps_q ps ! i) [0..<n] c = c + (\<Sum>j\<leftarrow>[0..<n]. ps_q ps ! j)" for n c
    by (induction n arbitrary: c) auto
  then show ?thesis by (simp add: local_sum_def)
qed

lemma Er_fold:
  "fold (Er_step ps) [0..<n] (c, er) =
     (c + (\<Sum>j\<leftarrow>[0..<n]. ps_q ps ! j),
      map (\<lambda>k. if k < n then Er_value ps c k else er ! k) [0..<length er])"
proof (induction n)
  case 0
  show ?case by (simp add: map_nth)
next
  case (Suc n)
  have "fold (Er_step ps) [0..<Suc n] (c, er)
        = Er_step ps n (fold (Er_step ps) [0..<n] (c, er))" by simp
  also have "\<dots> = Er_step ps n (c + (\<Sum>j\<leftarrow>[0..<n]. ps_q ps ! j),
      map (\<lambda>k. if k < n then Er_value ps c k else er ! k) [0..<length er])"
    by (simp only: Suc)
  also have "\<dots> = (c + (\<Sum>j\<leftarrow>[0..<Suc n]. ps_q ps ! j),
      (map (\<lambda>k. if k < n then Er_value ps c k else er ! k) [0..<length er])[n := Er_value ps c n])"
    by (simp add: Er_step_def Let_def Er_value_def add.assoc)
  also have "(map (\<lambda>k. if k < n then Er_value ps c k else er ! k) [0..<length er])[n := Er_value ps c n]
     = map (\<lambda>k. if k < Suc n then Er_value ps c k else er ! k) [0..<length er]"
    by (rule nth_equalityI) (auto simp: nth_list_update less_Suc_eq)
  finally show ?case .
qed

lemma Er_sweep_eq:
  "Er_sweep ps c = map (\<lambda>k. if k < ps_n_particles ps then Er_value ps c k else ps_Er ps ! k)
                       [0..<length (ps_Er ps)]"
  by (simp add: Er_sweep_def Er_fold)

lemma Er_sweep_idem:
  "Er_sweep (ps\<lparr>ps_Er := Er_sweep ps c\<rparr>) c = Er_sweep ps c"
  by (rule nth_equalityI) (auto simp: Er_sweep_eq Er_value_def)

lemma local_sum_Er [simp]: "local_sum (ps\<lparr>ps_Er := e\<rparr>) = local_sum ps"
  by (simp add: local_sum_def)

lemma length_updateElectricFieldParallel [simp]:
  "length (updateElectricFieldParallel st) = length st"
  by (simp add: updateElectricFieldParallel_def)

lemma map_local_sum_update:
  "map local_sum (updateElectricFieldParallel st) = map local_sum st"
  by (rule nth_equalityI)
     (simp_all add: updateElectricFieldParallel_def updateElectricField_rank_def Let_def)

text \<open>
  C8. \<open>updateElectricFieldParallel\<close> is idempotent: a second call, with \<open>q\<close> and \<open>r2\<close> as the
  first call left them, leaves every rank's shell as the first call did.
\<close>

theorem updateElectricFieldParallel_idempotent:
  "updateElectricFieldParallel (updateElectricFieldParallel st) = updateElectricFieldParallel st"
proof (rule nth_equalityI)
  show "length (updateElectricFieldParallel (updateElectricFieldParallel st)) =
    length (updateElectricFieldParallel st)" by simp
next
  fix i assume "i < length (updateElectricFieldParallel (updateElectricFieldParallel st))"
  then have i: "i < length st" by simp
  show "updateElectricFieldParallel (updateElectricFieldParallel st) ! i =
         updateElectricFieldParallel st ! i"
    unfolding updateElectricFieldParallel_def[of "updateElectricFieldParallel st"]
    using i
    apply (simp add: map_local_sum_update)
    apply (simp add: updateElectricFieldParallel_def updateElectricField_rank_def Let_def Er_sweep_idem)
    done
qed

text \<open>
  C10. \<open>updateElectricFieldParallel\<close> writes only \<open>Er\<close>: on every rank the fields \<open>x\<close>, \<open>y\<close>,
  \<open>z\<close>, \<open>vx\<close>, \<open>vy\<close>, \<open>vz\<close>, \<open>q\<close>, \<open>r2\<close>, \<open>n_particles\<close>, \<open>n_total\<close> and \<open>iqom\<close> (and the name)
  are as before the call, and the number of ranks is the same.
\<close>

theorem updateElectricFieldParallel_frame:
  "length (updateElectricFieldParallel st) = length st \<and>
   map ps_x (updateElectricFieldParallel st) = map ps_x st \<and>
   map ps_y (updateElectricFieldParallel st) = map ps_y st \<and>
   map ps_z (updateElectricFieldParallel st) = map ps_z st \<and>
   map ps_vx (updateElectricFieldParallel st) = map ps_vx st \<and>
   map ps_vy (updateElectricFieldParallel st) = map ps_vy st \<and>
   map ps_vz (updateElectricFieldParallel st) = map ps_vz st \<and>
   map ps_q (updateElectricFieldParallel st) = map ps_q st \<and>
   map ps_r2 (updateElectricFieldParallel st) = map ps_r2 st \<and>
   map ps_n_particles (updateElectricFieldParallel st) = map ps_n_particles st \<and>
   map ps_n_total (updateElectricFieldParallel st) = map ps_n_total st \<and>
   map ps_iqom (updateElectricFieldParallel st) = map ps_iqom st \<and>
   map ps_name (updateElectricFieldParallel st) = map ps_name st"
  by (auto intro!: nth_equalityI simp: updateElectricFieldParallel_def updateElectricField_rank_def Let_def)

lemma charge_below_all:
  "\<forall>j < k. ps_r2 ps ! j \<le> bound \<Longrightarrow> charge_below bound ps k = (\<Sum>j\<leftarrow>[0..<k]. ps_q ps ! j)"
  unfolding charge_below_def
  by (rule arg_cong[where f = sum_list]) (rule map_cong, simp_all)

lemma take_map_nth: "p \<le> length xs \<Longrightarrow> take p (map f xs) = map (\<lambda>k. f (xs ! k)) [0..<p]"
  by (rule nth_equalityI) simp_all

text \<open>
  C1. With every vector of length \<open>n_particles\<close> and the shells sorted (I1) and ordered by rank
  (I2) on entry, \<open>updateElectricFieldParallel\<close> leaves, on every rank \<open>p\<close> and for every local
  particle \<open>i\<close>, \<open>Er[i] = Q_enc(i) / r2[i]\<close> when \<open>r2[i] > 1e-30\<close> and \<open>Er[i] = 0\<close> otherwise;
  \<open>Q_enc(i)\<close> sums the charges of the particles of the lower ranks and of this rank up to and
  including \<open>i\<close> whose \<open>r2\<close> is at most \<open>r2[i]\<close>. The bound \<open>1e-30\<close> is the \<open>double\<close> of the
  literal, \<open>lit_1e_30\<close>. I3 is not needed.
\<close>

theorem updateElectricFieldParallel_enclosed_charge:
  assumes wf: "shells_wf st" and i1: "I1 st" and i2: "I2 st"
    and p: "p < length st" and i: "i < ps_n_particles (st ! p)"
  shows "ps_Er (updateElectricFieldParallel st ! p) ! i =
           (if ps_r2 (st ! p) ! i > lit_1e_30 then Q_enc st p i / ps_r2 (st ! p) ! i else 0)"
proof -
  let ?ps = "st ! p"
  let ?c = "sum_list (take p (map local_sum st))"
  have wfp: "ps_wf ?ps" using wf p by (simp add: shells_wf_def list_all_length)
  then have len: "length (ps_Er ?ps) = ps_n_particles ?ps" "length (ps_r2 ?ps) = ps_n_particles ?ps"
    by (simp_all add: ps_wf_def)
  have prefix: "(if p = 0 then 0 else MPI_Exscan_sum (map local_sum st) p) = ?c"
    by (simp add: MPI_Exscan_sum_def)
  have Er: "ps_Er (updateElectricFieldParallel st ! p) ! i = Er_value ?ps ?c i"
    using p i len
    by (simp add: updateElectricFieldParallel_def updateElectricField_rank_def Let_def
        MPI_Exscan_sum_def Er_sweep_eq del: upt_Suc)
  have bound_in: "ps_r2 ?ps ! i \<in> set (ps_r2 ?ps)" using i len by simp
  have lower: "charge_below (ps_r2 ?ps ! i) (st ! p') (ps_n_particles (st ! p')) = local_sum (st ! p')"
    if "p' < p" for p'
  proof -
    have "ps_wf (st ! p')" using wf p that by (simp add: shells_wf_def list_all_length)
    then have l: "length (ps_r2 (st ! p')) = ps_n_particles (st ! p')" by (simp add: ps_wf_def)
    have "\<forall>j < ps_n_particles (st ! p'). ps_r2 (st ! p') ! j \<le> ps_r2 ?ps ! i"
      using i2 p that bound_in l unfolding I2_def by (auto simp: Ball_def)
    then show ?thesis by (simp add: charge_below_all local_sum_eq)
  qed
  have own: "charge_below (ps_r2 ?ps ! i) ?ps (Suc i) = (\<Sum>j\<leftarrow>[0..<Suc i]. ps_q ?ps ! j)"
  proof -
    have "sorted (ps_r2 ?ps)" using i1 p by (simp add: I1_def)
    then have "\<forall>j < Suc i. ps_r2 ?ps ! j \<le> ps_r2 ?ps ! i"
      using i len by (auto simp: sorted_iff_nth_mono less_Suc_eq_le)
    then show ?thesis by (rule charge_below_all)
  qed
  have "?c = (\<Sum>p'\<leftarrow>[0..<p]. local_sum (st ! p'))"
    using p by (simp add: take_map_nth)
  also have "\<dots> = (\<Sum>p'\<leftarrow>[0..<p]. charge_below (ps_r2 ?ps ! i) (st ! p') (ps_n_particles (st ! p')))"
    by (rule arg_cong[where f = sum_list], rule map_cong) (simp_all add: lower)
  finally have "Q_enc st p i = ?c + (\<Sum>j\<leftarrow>[0..<Suc i]. ps_q ?ps ! j)"
    by (simp add: Q_enc_def Let_def own del: upt_Suc)
  then show ?thesis
    by (simp add: Er Er_value_def del: upt_Suc)
qed

theorem updateElectricFieldParallel_enclosed_charge_witness:
  "shells_wf S2_sorted \<and> I1 S2_sorted \<and> I2 S2_sorted \<and> 1 < length S2_sorted \<and>
   0 < ps_n_particles (S2_sorted ! 1) \<and> ps_r2 (S2_sorted ! 1) ! 0 > lit_1e_30 \<and>
   Q_enc S2_sorted 1 0 = 3 \<and>
   ps_Er (updateElectricFieldParallel S2_sorted ! 1) ! 0 = 3 / 9 \<and>
   shells_wf at_guard \<and> I1 at_guard \<and> I2 at_guard \<and> 0 < length at_guard \<and>
   0 < ps_n_particles (at_guard ! 0) \<and> ps_r2 (at_guard ! 0) ! 0 = lit_1e_30 \<and>
   ps_Er (updateElectricFieldParallel at_guard ! 0) ! 0 = 0"
proof -
  have h: "shells_wf S2_sorted" "I1 S2_sorted" "I2 S2_sorted" "1 < length S2_sorted"
    "0 < ps_n_particles (S2_sorted ! 1)"
    by (simp_all add: S2_sorted_def shells_wf_def shell_at_wf I1_def I2_def)
       (simp_all add: shell_at_def ParticleSystem_ctor_def resize_def upt_rec)
  have g: "ps_r2 (S2_sorted ! 1) ! 0 > lit_1e_30" "Q_enc S2_sorted 1 0 = 3"
    by (simp_all add: S2_sorted_def shell_at_def lit_1e_30_def Q_enc_def charge_below_def
        ParticleSystem_ctor_def resize_def upt_rec)
  have r: "ps_r2 (S2_sorted ! Suc 0) ! 0 = 9"
    by (simp add: S2_sorted_def shell_at_def)
  have k: "shells_wf at_guard" "I1 at_guard" "I2 at_guard" "0 < length at_guard"
    "0 < ps_n_particles (at_guard ! 0)" "ps_r2 (at_guard ! 0) ! 0 = lit_1e_30"
    by (simp_all add: at_guard_def shells_wf_def ps_wf_def I1_def I2_def shell_at_def
        ParticleSystem_ctor_def resize_def vec_resize_def)
  have z: "ps_Er (updateElectricFieldParallel at_guard ! 0) ! 0 = 0"
    using updateElectricFieldParallel_enclosed_charge [OF k(1,2,3,4,5)] by (simp only: k(6)) simp
  show ?thesis
    using updateElectricFieldParallel_enclosed_charge [OF h] h g k z by (simp add: r)
qed

section \<open>The reference library meets the contract\<close>

lemma mset_insert_by: "mset (insert_by lt x xs) = add_mset x (mset xs)"
  by (induction xs) auto

lemma mset_insertion_sort: "mset (insertion_sort lt xs) = mset xs"
  by (induction xs) (auto simp: mset_insert_by)

lemma set_insert_by: "set (insert_by lt x xs) = insert x (set xs)"
  by (induction xs) auto

lemma sorted_insert_by:
  fixes key :: "'a \<Rightarrow> real"
  shows "sorted (map key xs) \<Longrightarrow> sorted (map key (insert_by (\<lambda>a b. key a < key b) x xs))"
  by (induction xs) (auto simp: set_insert_by)

lemma sorted_insertion_sort:
  fixes key :: "'a \<Rightarrow> real"
  shows "sorted (map key (insertion_sort (\<lambda>a b. key a < key b) xs))"
  by (induction xs) (auto simp: sorted_insert_by)

lemma sorted_is_heap: "sorted (map me_r2 c) \<Longrightarrow> is_heap MergeElement_gt c"
  unfolding is_heap_def MergeElement_gt_def
proof
  fix i assume s: "sorted (map me_r2 c)" and i: "i \<in> set [1..<length c]"
  then have "(i - 1) div 2 \<le> i" "i < length c" by auto
  with s have "map me_r2 c ! ((i - 1) div 2) \<le> map me_r2 c ! i"
    by (intro sorted_nth_mono) auto
  then show "\<not> me_r2 (c ! i) < me_r2 (c ! ((i - 1) div 2))"
    using \<open>i < length c\<close> \<open>(i - 1) div 2 \<le> i\<close> by simp
qed

lemma gt_flip: "(\<lambda>a b. MergeElement_gt b a) = (\<lambda>a b. me_r2 a < me_r2 b)"
  by (simp add: MergeElement_gt_def fun_eq_iff)

lemma ref_lib_ok: "stdlib_ok ref_lib"
  unfolding stdlib_ok_def
proof (intro conjI allI impI)
  fix key :: "nat \<Rightarrow> real" and v
  show "mset (std_sort ref_lib (\<lambda>a b. key a < key b) v) = mset v"
    by (simp add: ref_lib_def mset_insertion_sort)
  show "sorted (map key (std_sort ref_lib (\<lambda>a b. key a < key b) v))"
    by (simp add: ref_lib_def sorted_insertion_sort)
next
  fix c :: "MergeElement list"
  show "mset (std_push_heap ref_lib MergeElement_gt c) = mset c"
    by (simp add: ref_lib_def mset_insertion_sort)
  show "is_heap MergeElement_gt (std_push_heap ref_lib MergeElement_gt c)"
    by (simp add: ref_lib_def gt_flip sorted_is_heap sorted_insertion_sort)
next
  fix c :: "MergeElement list" assume c: "c \<noteq> [] \<and> is_heap MergeElement_gt c"
  then show "mset (std_pop_heap ref_lib MergeElement_gt c) = mset c"
    by (cases c) (simp_all add: ref_lib_def mset_insertion_sort)
  show "last (std_pop_heap ref_lib MergeElement_gt c) = hd c"
    by (simp add: ref_lib_def)
  show "is_heap MergeElement_gt (butlast (std_pop_heap ref_lib MergeElement_gt c))"
    by (simp add: ref_lib_def gt_flip sorted_is_heap sorted_insertion_sort)
qed

section \<open>The local sort\<close>

lemma fold_list_update_all:
  "length a = n \<Longrightarrow> fold (\<lambda>i a. a[i := f i]) [0..<n] a = map f [0..<n]"
proof -
  have "k \<le> length a \<Longrightarrow> fold (\<lambda>i a. a[i := f i]) [0..<k] a = map f [0..<k] @ drop k a" for k
  proof (induction k)
    case 0 then show ?case by simp
  next
    case (Suc k)
    then have k: "k < length a" by simp
    have "fold (\<lambda>i a. a[i := f i]) [0..<Suc k] a = (map f [0..<k] @ drop k a)[k := f k]"
      using Suc by simp
    also have "\<dots> = map f [0..<k] @ (drop k a)[0 := f k]"
      by (simp add: list_update_append)
    also have "(drop k a)[0 := f k] = f k # drop (Suc k) a"
      using k by (simp add: Cons_nth_drop_Suc[symmetric])
    finally show ?case by simp
  qed
  from this[of n] show "length a = n \<Longrightarrow> ?thesis" by simp
qed

lemma computeSquareRadius_eq:
  "ps_wf ps \<Longrightarrow> computeSquareRadius ps = ps\<lparr>ps_r2 := map (r2_of ps) [0..<ps_n_particles ps]\<rparr>"
  unfolding computeSquareRadius_def
  using fold_list_update_all[of "ps_r2 ps" "ps_n_particles ps" "r2_of ps"]
  by (simp add: ps_wf_def r2_of_def[abs_def])

lemma computeSquareRadius_wf: "ps_wf ps \<Longrightarrow> ps_wf (computeSquareRadius ps)"
  by (simp add: computeSquareRadius_eq) (simp add: ps_wf_def)

lemma std_sort_mset:
  fixes key :: "nat \<Rightarrow> real"
  shows "stdlib_ok lib \<Longrightarrow> mset (std_sort lib (\<lambda>a b. key a < key b) v) = mset v"
  by (simp add: stdlib_ok_def)

lemma std_sort_sorted:
  fixes key :: "nat \<Rightarrow> real"
  shows "stdlib_ok lib \<Longrightarrow> sorted (map key (std_sort lib (\<lambda>a b. key a < key b) v))"
  by (simp add: stdlib_ok_def)

lemma reorder_eq:
  "length indices = n \<Longrightarrow> length arr = n \<Longrightarrow> reorder indices n arr = map ((!) arr) indices"
  by (auto simp: reorder_def intro!: nth_equalityI)

text \<open>The index vector after \<open>std::sort\<close>, and the shell after the local sort in closed form.\<close>

lemma local_sort_eq:
  assumes lib: "stdlib_ok lib" and wf: "ps_wf ps"
  defines "ps1 \<equiv> computeSquareRadius ps"
  defines "indices \<equiv> std_sort lib (\<lambda>a b. ps_r2 ps1 ! a < ps_r2 ps1 ! b) [0..<ps_n_particles ps]"
  shows "local_sort lib ps =
           ps1\<lparr>ps_x := map ((!) (ps_x ps1)) indices, ps_y := map ((!) (ps_y ps1)) indices,
               ps_z := map ((!) (ps_z ps1)) indices, ps_vx := map ((!) (ps_vx ps1)) indices,
               ps_vy := map ((!) (ps_vy ps1)) indices, ps_vz := map ((!) (ps_vz ps1)) indices,
               ps_q := map ((!) (ps_q ps1)) indices, ps_Er := map ((!) (ps_Er ps1)) indices,
               ps_r2 := map ((!) (ps_r2 ps1)) indices\<rparr>"
    and "mset indices = mset [0..<ps_n_particles ps]"
    and "sorted (map ((!) (ps_r2 ps1)) indices)"
proof -
  have n1: "ps_n_particles ps1 = ps_n_particles ps" by (simp add: ps1_def computeSquareRadius_def)
  show m: "mset indices = mset [0..<ps_n_particles ps]"
    unfolding indices_def using std_sort_mset[OF lib, of "\<lambda>a. ps_r2 ps1 ! a"] by simp
  then have len: "length indices = ps_n_particles ps"
    by (metis length_upt mset_eq_length minus_nat.diff_0)
  show "sorted (map ((!) (ps_r2 ps1)) indices)"
    unfolding indices_def using std_sort_sorted[OF lib, of "\<lambda>a. ps_r2 ps1 ! a"] by simp
  have wf1: "ps_wf ps1" unfolding ps1_def using wf by (rule computeSquareRadius_wf)
  show "local_sort lib ps =
           ps1\<lparr>ps_x := map ((!) (ps_x ps1)) indices, ps_y := map ((!) (ps_y ps1)) indices,
               ps_z := map ((!) (ps_z ps1)) indices, ps_vx := map ((!) (ps_vx ps1)) indices,
               ps_vy := map ((!) (ps_vy ps1)) indices, ps_vz := map ((!) (ps_vz ps1)) indices,
               ps_q := map ((!) (ps_q ps1)) indices, ps_Er := map ((!) (ps_Er ps1)) indices,
               ps_r2 := map ((!) (ps_r2 ps1)) indices\<rparr>"
    using wf1 len n1
    by (simp add: local_sort_def Let_def ps1_def[symmetric] indices_def[symmetric] reorder_eq ps_wf_def)
qed

lemma local_sort_n [simp]:
  "ps_n_particles (local_sort lib ps) = ps_n_particles ps"
  by (simp add: local_sort_def Let_def computeSquareRadius_def)

lemma local_sort_wf:
  assumes "stdlib_ok lib" "ps_wf ps" shows "ps_wf (local_sort lib ps)"
proof -
  note ls = local_sort_eq[OF assms]
  have "length (std_sort lib (\<lambda>a b. ps_r2 (computeSquareRadius ps) ! a < ps_r2 (computeSquareRadius ps) ! b)
          [0..<ps_n_particles ps]) = ps_n_particles ps"
    using ls(2) by (metis length_upt mset_eq_length minus_nat.diff_0)
  then show ?thesis
    by (simp add: ls(1)) (simp add: ps_wf_def computeSquareRadius_def)
qed

lemma local_sort_sorted:
  assumes "stdlib_ok lib" "ps_wf ps" shows "sorted (ps_r2 (local_sort lib ps))"
  using local_sort_eq[OF assms] by simp

lemma particle_record_cong:
  "particle_record (ps\<lparr>ps_x := map ((!) (ps_x ps)) ix, ps_y := map ((!) (ps_y ps)) ix,
               ps_z := map ((!) (ps_z ps)) ix, ps_vx := map ((!) (ps_vx ps)) ix,
               ps_vy := map ((!) (ps_vy ps)) ix, ps_vz := map ((!) (ps_vz ps)) ix,
               ps_q := map ((!) (ps_q ps)) ix, ps_Er := map ((!) (ps_Er ps)) ix,
               ps_r2 := map ((!) (ps_r2 ps)) ix\<rparr>) i = particle_record ps (ix ! i)"
  if "i < length ix"
  using that by (simp add: particle_record_def)

lemma local_sort_records:
  assumes "stdlib_ok lib" "ps_wf ps"
  shows "mset (records (local_sort lib ps)) = mset (records (computeSquareRadius ps))"
proof -
  let ?ps1 = "computeSquareRadius ps"
  let ?ix = "std_sort lib (\<lambda>a b. ps_r2 ?ps1 ! a < ps_r2 ?ps1 ! b) [0..<ps_n_particles ps]"
  note ls = local_sort_eq[OF assms]
  have len: "length ?ix = ps_n_particles ps"
    using ls(2) by (metis length_upt mset_eq_length minus_nat.diff_0)
  have "records (local_sort lib ps) = map (particle_record ?ps1) ?ix"
    unfolding records_def
    by (rule nth_equalityI) (simp_all add: len, simp add: ls(1) particle_record_cong len)
  then have "mset (records (local_sort lib ps)) = image_mset (particle_record ?ps1) (mset ?ix)"
    by simp
  also have "\<dots> = image_mset (particle_record ?ps1) (mset [0..<ps_n_particles ps])"
    by (simp only: ls(2))
  also have "\<dots> = mset (records ?ps1)"
    by (simp add: records_def computeSquareRadius_def)
  finally show ?thesis .
qed

text \<open>After the local sort the cache is consistent: \<open>r2[i] = x[i]^2 + y[i]^2 + z[i]^2\<close> (I3).\<close>

lemma local_sort_I3:
  assumes "stdlib_ok lib" "ps_wf ps" "i < ps_n_particles ps"
  shows "ps_r2 (local_sort lib ps) ! i = r2_of (local_sort lib ps) i"
proof -
  let ?ps1 = "computeSquareRadius ps"
  let ?ix = "std_sort lib (\<lambda>a b. ps_r2 ?ps1 ! a < ps_r2 ?ps1 ! b) [0..<ps_n_particles ps]"
  note ls = local_sort_eq[OF assms(1,2)]
  have len: "length ?ix = ps_n_particles ps"
    using ls(2) by (metis length_upt mset_eq_length minus_nat.diff_0)
  have "?ix ! i \<in> set ?ix" using assms(3) len by simp
  then have "?ix ! i \<in># mset ?ix" by simp
  then have "?ix ! i \<in># mset [0..<ps_n_particles ps]" by (simp only: ls(2))
  then have b: "?ix ! i < ps_n_particles ps" by simp
  show ?thesis
    using assms(3) len b
    by (simp add: ls(1) r2_of_def) (simp add: computeSquareRadius_eq[OF assms(2)] r2_of_def)
qed

section \<open>The splitters\<close>

lemma splitter_inv_mono:
  "0 < bw \<Longrightarrow> lo \<le> hi \<Longrightarrow> splitter_inv m r2min bw lo s \<Longrightarrow> splitter_inv m r2min bw hi s"
proof -
  assume bw: "0 < bw" and le: "lo \<le> hi" and inv: "splitter_inv m r2min bw lo s"
  have "real lo * bw \<le> real hi * bw" using bw le by (simp add: mult_right_mono)
  then show ?thesis using inv by (cases s) (fastforce simp: splitter_inv_def)
qed

lemma splitter_inv_emit:
  assumes bw: "0 < bw" and inv: "splitter_inv m r2min bw b (cumsum, idx, spl)" and idx: "idx < m - 1"
  shows "splitter_inv m r2min bw (Suc b) (cumsum', Suc idx, spl[idx := r2min + (real b + 1) * bw])"
proof -
  let ?new = "r2min + (real b + 1) * bw"
  from inv have len: "length spl = m - 1" and srt: "sorted (take idx spl)"
    and bnd: "\<forall>s \<in> set (take idx spl). r2min < s \<and> s \<le> r2min + real b * bw"
    by (simp_all add: splitter_inv_def)
  have tk: "take (Suc idx) (spl[idx := ?new]) = take idx spl @ [?new]"
    using idx len by (simp add: take_Suc_conv_app_nth)
  have lt: "r2min + real b * bw < ?new" using bw by (simp add: algebra_simps)
  have pos: "r2min < ?new" using bw by (simp add: add_pos_nonneg)
  have "sorted (take idx spl @ [?new])"
    using srt bnd lt by (auto simp: sorted_append intro: less_imp_le order_trans)
  moreover have "\<forall>s \<in> set (take idx spl @ [?new]). r2min < s \<and> s \<le> r2min + real (Suc b) * bw"
    using bnd lt pos by (auto simp: algebra_simps)
  ultimately show ?thesis
    using idx len by (simp add: splitter_inv_def tk del: take_Suc_conv_app_nth)
qed

lemma splitter_loop_inv:
  assumes bw: "0 < bw"
  shows "lo \<le> hi \<Longrightarrow> splitter_inv m r2min bw lo s \<Longrightarrow>
         splitter_inv m r2min bw hi (splitter_loop m r2min bw hist target [lo..<hi] s)"
proof (induction "hi - lo" arbitrary: lo s)
  case 0
  then show ?case by simp
next
  case (Suc d)
  obtain cumsum idx spl where s: "s = (cumsum, idx, spl)" by (cases s) auto
  have lohi: "lo < hi" using Suc.hyps(2) by simp
  then have up: "[lo..<hi] = lo # [Suc lo..<hi]" by (simp add: upt_conv_Cons)
  have d: "d = hi - Suc lo" using Suc.hyps(2) by simp
  have le: "Suc lo \<le> hi" using lohi by simp
  show ?case
  proof (cases "idx < m - 1")
    case False
    then show ?thesis
      using Suc.prems splitter_inv_mono[OF bw Suc.prems(1)] by (simp add: s up)
  next
    case True
    show ?thesis
    proof (cases "cumsum + hist ! lo \<ge> target * (idx + 1)")
      case True
      have "splitter_inv m r2min bw (Suc lo)
              (cumsum + hist ! lo, Suc idx, spl[idx := r2min + (real lo + 1) * bw])"
        using splitter_inv_emit[OF bw _ \<open>idx < m - 1\<close>] Suc.prems(2) by (simp add: s)
      from Suc.hyps(1)[OF d le this] show ?thesis
        using True \<open>idx < m - 1\<close> by (simp add: s up Let_def)
    next
      case False
      have "splitter_inv m r2min bw (Suc lo) (cumsum + hist ! lo, idx, spl)"
        using splitter_inv_mono[OF bw _ Suc.prems(2), of "Suc lo"] by (simp add: s splitter_inv_def)
      from Suc.hyps(1)[OF d le this] show ?thesis
        using False \<open>idx < m - 1\<close> by (simp add: s up Let_def)
    qed
  qed
qed

lemma fill_eq:
  "idx \<le> length spl \<Longrightarrow>
   fold (\<lambda>k spl. spl[k := v]) [idx..<length spl] spl = take idx spl @ replicate (length spl - idx) v"
proof (induction "length spl - idx" arbitrary: idx spl)
  case 0
  then show ?case by simp
next
  case (Suc d)
  then have lt: "idx < length spl" by simp
  then have up: "[idx..<length spl] = idx # [Suc idx..<length spl]" by (simp add: upt_conv_Cons)
  have "fold (\<lambda>k spl. spl[k := v]) [Suc idx..<length (spl[idx := v])] (spl[idx := v])
        = take (Suc idx) (spl[idx := v]) @ replicate (length (spl[idx := v]) - Suc idx) v"
    using Suc.hyps(2) lt by (intro Suc.hyps(1)) simp_all
  then show ?case
    using lt by (simp add: up take_Suc_conv_app_nth replicate_app_Cons_same
        flip: replicate_Suc Suc_diff_Suc)
qed

lemma compute_splitters_props:
  assumes bw: "0 < bw" and mx: "r2max = r2min + real NUM_BINS * bw"
  shows "length (compute_splitters m r2min r2max bw hist) = m - 1"
    and "sorted (compute_splitters m r2min r2max bw hist)"
    and "\<forall>s \<in> set (compute_splitters m r2min r2max bw hist). r2min < s"
proof -
  let ?target = "(sum_list hist + m - 1) div m"
  let ?r = "splitter_loop m r2min bw hist ?target [0..<NUM_BINS] (0, 0, replicate (m - 1) 0)"
  obtain cumsum idx spl where r: "?r = (cumsum, idx, spl)" by (cases ?r) auto
  have "splitter_inv m r2min bw 0 (0, 0, replicate (m - 1) 0)"
    by (simp add: splitter_inv_def)
  from splitter_loop_inv[OF bw le0 this, where hist = hist and target = ?target and hi = NUM_BINS]
  have inv: "splitter_inv m r2min bw NUM_BINS (cumsum, idx, spl)" by (simp only: r)
  then have idx: "idx \<le> m - 1" and len: "length spl = m - 1" and srt: "sorted (take idx spl)"
    and bnd: "\<forall>s \<in> set (take idx spl). r2min < s \<and> s \<le> r2max"
    by (simp_all add: splitter_inv_def mx)
  have r': "splitter_loop m r2min bw hist ((sum_list hist + m - Suc 0) div m) [0..<NUM_BINS]
              (0, 0, replicate (m - Suc 0) 0) = (cumsum, idx, spl)"
    using r by simp
  have res: "compute_splitters m r2min r2max bw hist = take idx spl @ replicate (m - 1 - idx) r2max"
    using fill_eq[of idx spl r2max] idx len by (simp add: compute_splitters_def Let_def r')
  have pos: "r2min < r2max" using bw by (simp add: mx NUM_BINS_def)
  show "length (compute_splitters m r2min r2max bw hist) = m - 1"
    using idx len by (simp add: res)
  show "sorted (compute_splitters m r2min r2max bw hist)"
    using srt bnd by (auto simp: res sorted_append)
  show "\<forall>s \<in> set (compute_splitters m r2min r2max bw hist). r2min < s"
    using bnd pos by (auto simp: res)
qed

lemma widen_gt: "r2min < widen r2min r2max"
  by (simp add: widen_def lit_1e_15_def)

lemma bin_width_pos: "0 < bin_width st"
  using widen_gt[of "r2_min_global st"] by (simp add: bin_width_def r2_max_global_def NUM_BINS_def)

lemma r2_max_global_eq: "r2_max_global st = r2_min_global st + real NUM_BINS * bin_width st"
  by (simp add: bin_width_def NUM_BINS_def field_simps)

lemma splitters_length: "length (splitters_of st) = length st - 1"
  unfolding splitters_of_def by (rule compute_splitters_props(1)[OF bin_width_pos r2_max_global_eq])

lemma splitters_sorted: "sorted (splitters_of st)"
  unfolding splitters_of_def by (rule compute_splitters_props(2)[OF bin_width_pos r2_max_global_eq])

lemma splitters_above_min: "s \<in> set (splitters_of st) \<Longrightarrow> r2_min_global st < s"
  unfolding splitters_of_def
  using compute_splitters_props(3)[OF bin_width_pos r2_max_global_eq] by blast

section \<open>Buckets, counts and displacements\<close>

lemma lower_bound_le: "lower_bound v val \<le> length v"
  by (simp add: lower_bound_def length_takeWhile_le)

lemma fold_upt_Suc: "fold f [0..<Suc n] s = f n (fold f [0..<n] s)"
  by simp

lemma bucketize_fold:
  assumes d: "\<And>i. lower_bound spl (ps_r2 ps ! i) < m"
  shows "fold (\<lambda>i (buckets, send_counts).
             let dest = lower_bound spl (ps_r2 ps ! i)
             in (buckets[dest := buckets ! dest @ [i]],
                 send_counts[dest := send_counts ! dest + 1]))
          [0..<n] (replicate m [], replicate m 0)
         = (map (\<lambda>d. filter (\<lambda>i. dest_of spl ps i = d) [0..<n]) [0..<m],
            map (\<lambda>d. length (filter (\<lambda>i. dest_of spl ps i = d) [0..<n])) [0..<m])"
    (is "fold ?f [0..<n] ?s = (?B n, ?C n)")
proof (induction n)
  case 0
  show ?case by (auto intro!: nth_equalityI)
next
  case (Suc n)
  let ?dn = "lower_bound spl (ps_r2 ps ! n)"
  have dn: "?dn < m" by (rule d)
  have b: "(?B n)[?dn := ?B n ! ?dn @ [n]] = ?B (Suc n)"
  proof (rule nth_equalityI)
    show "length ((?B n)[?dn := ?B n ! ?dn @ [n]]) = length (?B (Suc n))" by simp
  next
    fix j assume "j < length ((?B n)[?dn := ?B n ! ?dn @ [n]])"
    then have j: "j < m" by simp
    show "(?B n)[?dn := ?B n ! ?dn @ [n]] ! j = ?B (Suc n) ! j"
      using j dn by (cases "j = ?dn") (simp_all add: dest_of_def)
  qed
  have c: "(?C n)[?dn := ?C n ! ?dn + 1] = ?C (Suc n)"
  proof (rule nth_equalityI)
    show "length ((?C n)[?dn := ?C n ! ?dn + 1]) = length (?C (Suc n))" by simp
  next
    fix j assume "j < length ((?C n)[?dn := ?C n ! ?dn + 1])"
    then have j: "j < m" by simp
    show "(?C n)[?dn := ?C n ! ?dn + 1] ! j = ?C (Suc n) ! j"
      using j dn by (cases "j = ?dn") (simp_all add: dest_of_def)
  qed
  have "fold ?f [0..<Suc n] ?s = ?f n (fold ?f [0..<n] ?s)" by (rule fold_upt_Suc)
  also have "\<dots> = ?f n (?B n, ?C n)" by (simp only: Suc)
  also have "\<dots> = ((?B n)[?dn := ?B n ! ?dn @ [n]], (?C n)[?dn := ?C n ! ?dn + 1])"
    by (simp only: Let_def prod.case)
  also have "\<dots> = (?B (Suc n), ?C (Suc n))" by (simp only: b c)
  finally show ?case .
qed

lemma bucketize_eq:
  assumes "length spl < m"
  shows "bucketize spl m ps =
           (map (bucket_of spl ps) [0..<m], map (\<lambda>d. length (bucket_of spl ps d)) [0..<m])"
proof -
  have "lower_bound spl (ps_r2 ps ! i) < m" for i
    using lower_bound_le[of spl "ps_r2 ps ! i"] assms by simp
  from bucketize_fold[of spl ps m "ps_n_particles ps", OF this]
  show ?thesis by (simp add: bucketize_def bucket_of_def[abs_def])
qed

lemma sum_list_take_Suc:
  "k < length xs \<Longrightarrow> sum_list (take k xs) + xs ! k = sum_list (take (Suc k) (xs :: nat list))"
  by (simp add: take_Suc_conv_app_nth)

lemma displs_fold:
  "length counts = m \<Longrightarrow> k < m \<Longrightarrow>
   fold (\<lambda>i displs. displs[i := displs ! (i - 1) + counts ! (i - 1)]) [1..<Suc k] (replicate m 0)
     = map (\<lambda>i. if i \<le> k then sum_list (take i counts) else 0) [0..<m]"
    (is "_ \<Longrightarrow> _ \<Longrightarrow> fold ?f _ _ = ?D k")
proof (induction k)
  case 0
  have "?D 0 = replicate m 0"
    by (rule nth_equalityI) simp_all
  then show ?case by simp
next
  case (Suc k)
  then have k: "k < m" "Suc k < m" "k < length counts" by simp_all
  have t: "sum_list (take (Suc k) counts) = sum_list (take k counts) + counts ! k"
    using k by (simp add: take_Suc_conv_app_nth)
  have up: "[1..<Suc (Suc k)] = [1..<Suc k] @ [Suc k]" by simp
  have "fold ?f [1..<Suc (Suc k)] (replicate m 0) = ?f (Suc k) (fold ?f [1..<Suc k] (replicate m 0))"
    by (simp only: up fold_append fold_simps comp_apply)
  also have "\<dots> = ?f (Suc k) (?D k)" using Suc.IH[OF Suc.prems(1) k(1)] by (simp only:)
  also have "\<dots> = (?D k)[Suc k := sum_list (take (Suc k) counts)]"
    using k by (simp add: t)
  also have "\<dots> = ?D (Suc k)"
  proof (rule nth_equalityI)
    show "length ((?D k)[Suc k := sum_list (take (Suc k) counts)]) = length (?D (Suc k))" by simp
  next
    fix j assume "j < length ((?D k)[Suc k := sum_list (take (Suc k) counts)])"
    then have j: "j < m" by simp
    show "(?D k)[Suc k := sum_list (take (Suc k) counts)] ! j = ?D (Suc k) ! j"
      using j k by (cases "j = Suc k") (simp_all add: le_Suc_eq)
  qed
  finally show ?case .
qed

lemma displs_of_eq:
  assumes "length counts = m"
  shows "displs_of m counts = map (\<lambda>i. sum_list (take i counts)) [0..<m]"
proof (cases "m = 0")
  case True
  then show ?thesis by (simp add: displs_of_def)
next
  case False
  then have m: "m - 1 < m" "Suc (m - 1) = m" by simp_all
  have "displs_of m counts = map (\<lambda>i. if i \<le> m - 1 then sum_list (take i counts) else 0) [0..<m]"
    using displs_fold[OF assms m(1)] by (simp only: displs_of_def m(2))
  also have "\<dots> = map (\<lambda>i. sum_list (take i counts)) [0..<m]"
    by (rule map_cong) auto
  finally show ?thesis .
qed

lemma total_of_eq:
  assumes "length counts = m"
  shows "total_of m (displs_of m counts) counts = sum_list counts"
proof (cases "m = 0")
  case True
  then show ?thesis using assms by (simp add: total_of_def)
next
  case False
  then have m: "m - 1 < m" "Suc (m - 1) = m" by simp_all
  have "sum_list (take (m - 1) counts) + counts ! (m - 1) = sum_list (take (Suc (m - 1)) counts)"
    using assms m(1) by (intro sum_list_take_Suc) simp
  also have "\<dots> = sum_list counts" using assms by (simp only: m(2)) simp
  finally have t: "sum_list (take (m - 1) counts) + counts ! (m - 1) = sum_list counts" .
  have "displs_of m counts ! (m - 1) = sum_list (take (m - 1) counts)"
    using m(1) by (simp add: displs_of_eq[OF assms] del: One_nat_def)
  then show ?thesis
    using False t by (simp add: total_of_def del: One_nat_def)
qed

section \<open>Packing, the exchange and unpacking\<close>

lemma concat_nth_block:
  "p < length bs \<Longrightarrow>
   take (length (bs ! p)) (drop (length (concat (take p bs))) (concat bs)) = bs ! p"
proof -
  assume p: "p < length bs"
  have "concat bs = concat (take p bs @ bs ! p # drop (Suc p) bs)"
    using p by (simp only: id_take_nth_drop[symmetric])
  then have "concat bs = concat (take p bs) @ bs ! p @ concat (drop (Suc p) bs)"
    by simp
  then show ?thesis by simp
qed

lemma place_fold:
  "k \<le> length bs \<Longrightarrow> length (concat bs) \<le> length buf \<Longrightarrow>
   fold (\<lambda>s buf. place buf (length (concat (take s bs))) (bs ! s)) [0..<k] buf
     = concat (take k bs) @ drop (length (concat (take k bs))) buf"
    (is "_ \<Longrightarrow> _ \<Longrightarrow> fold ?f _ _ = ?R k")
proof (induction k)
  case 0
  show ?case by simp
next
  case (Suc k)
  then have k: "k < length bs" by simp
  let ?L = "length (concat (take k bs))"
  have tk: "take (Suc k) bs = take k bs @ [bs ! k]"
    using k by (simp add: take_Suc_conv_app_nth)
  have "fold ?f [0..<Suc k] buf = ?f k (fold ?f [0..<k] buf)" by simp
  also have "\<dots> = ?f k (?R k)" using Suc by simp
  also have "\<dots> = take ?L (?R k) @ bs ! k @ drop (?L + length (bs ! k)) (?R k)"
    by (simp only: place_def)
  also have "take ?L (?R k) = concat (take k bs)" by simp
  also have "drop (?L + length (bs ! k)) (?R k) = drop (?L + length (bs ! k)) buf"
    by (simp add: add.commute)
  finally show ?case by (simp add: tk)
qed

lemma concat_nth_uniform:
  "\<forall>r \<in> set rs. length r = n \<Longrightarrow> i < length rs \<Longrightarrow> k < n \<Longrightarrow>
   concat rs ! (i * n + k) = rs ! i ! k"
proof (induction rs arbitrary: i)
  case Nil
  then show ?case by simp
next
  case (Cons r rs)
  show ?case
  proof (cases i)
    case 0
    then show ?thesis using Cons.prems by (simp add: nth_append)
  next
    case (Suc j)
    have "length r = n" using Cons.prems by simp
    then have "(r @ concat rs) ! (Suc j * n + k) = concat rs ! (j * n + k)"
      by (simp add: nth_append)
    then show ?thesis using Cons Suc by simp
  qed
qed

lemma length_particle_record [simp]: "length (particle_record ps i) = num_fields"
  by (simp add: particle_record_def num_fields_def)

lemma unpack_concat:
  assumes "\<forall>r \<in> set rs. length r = num_fields" "k < num_fields"
  shows "unpack k (length rs) (concat rs) = map (\<lambda>r. r ! k) rs"
  unfolding unpack_def
  by (rule nth_equalityI) (simp_all add: concat_nth_uniform[OF assms(1) _ assms(2)])

lemma length_concat_uniform:
  "\<forall>r \<in> set rs. length r = n \<Longrightarrow> length (concat rs) = length rs * n"
  by (induction rs) simp_all


lemma concat_map_concat:
  "concat (map f (concat xss)) = concat (map (\<lambda>xs. concat (map f xs)) xss)"
  by (induction xss) simp_all

lemma length_concat_records:
  "length (concat (map (particle_record ps) ixs)) = length ixs * num_fields"
  by (induction ixs) simp_all

lemma bucketize_splitters:
  assumes "sst \<noteq> []"
  shows "bucketize (splitters_of sst) (length sst) ps =
           (map (bucket_of (splitters_of sst) ps) [0..<length sst],
            map (\<lambda>d. length (bucket_of (splitters_of sst) ps d)) [0..<length sst])"
  using assms by (intro bucketize_eq) (simp add: splitters_length)

lemma send_counts_nth:
  assumes "s < length sst" "d < length sst"
  shows "send_counts_of sst ! s ! d = length (bucket_of (splitters_of sst) (sst ! s) d)"
proof -
  have "sst \<noteq> []" using assms by auto
  then show ?thesis using assms by (simp add: send_counts_of_def bucketize_splitters)
qed

lemma send_counts_row:
  assumes "s < length sst"
  shows "send_counts_of sst ! s = map (\<lambda>d. length (bucket_of (splitters_of sst) (sst ! s) d)) [0..<length sst]"
proof -
  have "sst \<noteq> []" using assms by auto
  then show ?thesis using assms by (simp add: send_counts_of_def bucketize_splitters)
qed

lemma recv_counts_eq:
  assumes "p < length sst"
  shows "MPI_Alltoall (send_counts_of sst) p = chunk_counts sst p"
proof -
  have l: "length (send_counts_of sst) = length sst" by (simp add: send_counts_of_def)
  show ?thesis
    unfolding MPI_Alltoall_def chunk_counts_def recv_chunks_def l
    using assms by (simp add: send_counts_nth)
qed

text \<open>The block that source \<open>s\<close> sends to rank \<open>p\<close>: the records of its bucket \<open>p\<close>.\<close>

lemma length_concat_blocks:
  "length (concat (map (\<lambda>d. concat (map (particle_record ps) (f d))) ds))
     = sum_list (map (\<lambda>d. length (f d)) ds) * num_fields"
  by (induction ds) (simp_all add: length_concat_records algebra_simps)

lemma send_block:
  assumes s: "s < length sst" and p: "p < length sst"
  defines "spl \<equiv> splitters_of sst"
  defines "counts \<equiv> send_counts_of sst ! s"
  shows "take (packed counts ! p)
           (drop (packed (displs_of (length sst) counts) ! p)
              (pack (sst ! s) (fst (bucketize spl (length sst) (sst ! s)))))
         = concat (map (particle_record (sst ! s)) (bucket_of spl (sst ! s) p))"
proof -
  let ?m = "length sst"
  let ?ps = "sst ! s"
  let ?bs = "map (\<lambda>d. concat (map (particle_record ?ps) (bucket_of spl ?ps d))) [0..<?m]"
  have ne: "sst \<noteq> []" using s by auto
  have counts: "counts = map (\<lambda>d. length (bucket_of spl ?ps d)) [0..<?m]"
    unfolding counts_def spl_def by (rule send_counts_row[OF s])
  have pk: "pack ?ps (fst (bucketize spl ?m ?ps)) = concat ?bs"
    unfolding spl_def
    by (simp add: bucketize_splitters[OF ne] pack_def concat_map_concat comp_def)
  have cp: "packed counts ! p = length (?bs ! p)"
    using p by (simp add: packed_def counts length_concat_records)
  have "take p ?bs = map (\<lambda>d. concat (map (particle_record ?ps) (bucket_of spl ?ps d))) [0..<p]"
    using p by (simp add: take_map)
  then have "length (concat (take p ?bs))
               = sum_list (map (\<lambda>d. length (bucket_of spl ?ps d)) [0..<p]) * num_fields"
    by (simp only: length_concat_blocks)
  also have "map (\<lambda>d. length (bucket_of spl ?ps d)) [0..<p] = take p counts"
    using p by (simp add: counts take_map)
  finally have L: "length (concat (take p ?bs)) = sum_list (take p counts) * num_fields" .
  have lc: "length counts = ?m" by (simp add: counts)
  have "displs_of ?m counts ! p = sum_list (take p counts)" "length (displs_of ?m counts) = ?m"
    using p by (simp_all add: displs_of_eq[OF lc])
  then have dp: "packed (displs_of ?m counts) ! p = length (concat (take p ?bs))"
    using p by (simp add: packed_def L)
  have "take (length (?bs ! p)) (drop (length (concat (take p ?bs))) (concat ?bs)) = ?bs ! p"
    using p by (intro concat_nth_block) simp
  then show ?thesis
    using p by (simp only: pk cp dp) simp
qed


lemma recv_chunks_nth:
  "s < length sst \<Longrightarrow>
   recv_chunks sst p ! s = map (particle_record (sst ! s)) (bucket_of (splitters_of sst) (sst ! s) p)"
  by (simp add: recv_chunks_def)

lemma length_recv_chunks [simp]: "length (recv_chunks sst p) = length sst"
  by (simp add: recv_chunks_def)

lemma length_chunk_counts [simp]: "length (chunk_counts sst p) = length sst"
  by (simp add: chunk_counts_def)

lemma recv_records_fields: "r \<in> set (recv_records sst p) \<Longrightarrow> length r = num_fields"
  by (auto simp: recv_records_def recv_chunks_def)

lemma concat_concat_map: "concat (map concat xss) = concat (concat xss)"
  by (induction xss) simp_all

lemma length_concat_chunks:
  "\<forall>c \<in> set cs. \<forall>r \<in> set c. length r = n \<Longrightarrow>
   length (concat (map concat cs)) = sum_list (map length cs) * n"
proof (induction cs)
  case Nil
  show ?case by simp
next
  case (Cons c cs)
  have "length (concat c) = length c * n"
    using Cons.prems by (intro length_concat_uniform) simp
  then show ?case using Cons by (simp add: algebra_simps)
qed

lemma total_recv_eq:
  "total_of (length sst) (displs_of (length sst) (chunk_counts sst p)) (chunk_counts sst p)
     = length (recv_records sst p)"
  by (simp add: total_of_eq) (simp add: chunk_counts_def recv_records_def length_concat)

lemma recv_buf_eq:
  assumes p: "p < length sst"
  defines "m \<equiv> length sst"
  defines "sc \<equiv> send_counts_of sst"
  shows "MPI_Alltoallv
           (map (\<lambda>ps. pack ps (fst (bucketize (splitters_of sst) m ps))) sst)
           (map packed sc) (map packed (map (displs_of m) sc))
           (replicate (length (recv_records sst p) * num_fields) 0)
           (packed (displs_of m (chunk_counts sst p))) p
         = concat (recv_records sst p)"
proof -
  let ?B = "map concat (recv_chunks sst p)"
  let ?buf = "replicate (length (recv_records sst p) * num_fields) (0::real)"
  let ?f = "\<lambda>s buf. place buf (packed (displs_of m (chunk_counts sst p)) ! s)
              (take (map packed sc ! s ! p)
                 (drop (map packed (map (displs_of m) sc) ! s ! p)
                    (map (\<lambda>ps. pack ps (fst (bucketize (splitters_of sst) m ps))) sst ! s)))"
  let ?g = "\<lambda>s buf. place buf (length (concat (take s ?B))) (?B ! s)"
  have lsc: "length sc = m" by (simp add: sc_def send_counts_of_def m_def)
  have rec9: "\<forall>c \<in> set (recv_chunks sst p). \<forall>r \<in> set c. length r = num_fields"
    by (auto simp: recv_chunks_def)
  have fg: "?f s = ?g s" if s: "s < m" for s
  proof -
    have s': "s < length sst" using s by (simp add: m_def)
    have blk: "take (map packed sc ! s ! p)
                 (drop (map packed (map (displs_of m) sc) ! s ! p)
                    (map (\<lambda>ps. pack ps (fst (bucketize (splitters_of sst) m ps))) sst ! s))
               = ?B ! s"
      using send_block[OF s' p] s' lsc s
      by (simp add: sc_def m_def recv_chunks_nth)
    have "take s ?B = map concat (take s (recv_chunks sst p))" by (simp add: take_map)
    moreover have "\<forall>c \<in> set (take s (recv_chunks sst p)). \<forall>r \<in> set c. length r = num_fields"
      using rec9 by (meson in_set_takeD)
    ultimately have "length (concat (take s ?B))
                     = sum_list (map length (take s (recv_chunks sst p))) * num_fields"
      by (simp only: length_concat_chunks)
    also have "map length (take s (recv_chunks sst p)) = take s (chunk_counts sst p)"
      by (simp add: chunk_counts_def take_map)
    finally have L: "length (concat (take s ?B)) = sum_list (take s (chunk_counts sst p)) * num_fields" .
    have lc: "length (chunk_counts sst p) = m" by (simp add: m_def)
    have "displs_of m (chunk_counts sst p) ! s = sum_list (take s (chunk_counts sst p))"
      "length (displs_of m (chunk_counts sst p)) = m"
      using s by (simp_all add: displs_of_eq[OF lc])
    then have "packed (displs_of m (chunk_counts sst p)) ! s = length (concat (take s ?B))"
      using s by (simp add: packed_def L)
    then show ?thesis by (simp only: blk)
  qed
  have "length (concat ?B) = sum_list (map length (recv_chunks sst p)) * num_fields"
    by (rule length_concat_chunks[OF rec9])
  moreover have "length (recv_records sst p) = sum_list (map length (recv_chunks sst p))"
    by (simp add: recv_records_def length_concat)
  ultimately have LB: "length (concat ?B) = length (recv_records sst p) * num_fields"
    by (simp only:)
  have "MPI_Alltoallv
           (map (\<lambda>ps. pack ps (fst (bucketize (splitters_of sst) m ps))) sst)
           (map packed sc) (map packed (map (displs_of m) sc)) ?buf
           (packed (displs_of m (chunk_counts sst p))) p
        = fold ?f [0..<m] ?buf"
    by (simp only: MPI_Alltoallv_def length_map m_def)
  also have "\<dots> = fold ?g [0..<m] ?buf"
  proof (rule fold_cong)
    fix s assume "s \<in> set [0..<m]"
    then have "s < m" by simp
    then show "?f s = ?g s" by (rule fg)
  qed simp_all
  also have "\<dots> = concat (take m ?B) @ drop (length (concat (take m ?B))) ?buf"
  proof (rule place_fold)
    show "m \<le> length ?B" by (simp add: m_def)
    show "length (concat ?B) \<le> length ?buf" by (simp only: LB length_replicate order_refl)
  qed
  also have "take m ?B = ?B" by (simp add: m_def)
  also have "concat ?B @ drop (length (concat ?B)) ?buf = concat ?B"
    by (simp only: LB length_replicate drop_all order_refl append_Nil2 flip: length_replicate[of _ "0::real"])
  also have "\<dots> = concat (recv_records sst p)"
    by (simp add: concat_concat_map recv_records_def)
  finally show ?thesis .
qed

text \<open>Steps 5 to 10 on rank \<open>p\<close> in terms of the records it receives.\<close>

lemma exchange_rank_eq:
  assumes p: "p < length sst"
  shows "exchange_rank lib sst p =
           map_option (\<lambda>merge_order.
               install merge_order (length (recv_records sst p)) (concat (recv_records sst p)) (sst ! p))
             (kway_merge lib (map (\<lambda>r. r ! 8) (recv_records sst p))
                (displs_of (length sst) (chunk_counts sst p)) (chunk_counts sst p)
                (length sst) (length (recv_records sst p)))"
proof -
  have u: "unpack 8 (length (recv_records sst p)) (concat (recv_records sst p))
           = map (\<lambda>r. r ! 8) (recv_records sst p)"
    by (rule unpack_concat) (simp_all add: recv_records_fields num_fields_def)
  show ?thesis
    unfolding exchange_rank_def Let_def
    by (simp only: recv_counts_eq[OF p] total_recv_eq recv_buf_eq[OF p] u)
qed

section \<open>The priority queue\<close>

lemma heap_front_min:
  assumes "is_heap MergeElement_gt q" "i < length q"
  shows "me_r2 (q ! 0) \<le> me_r2 (q ! i)"
  using assms(2)
proof (induction i rule: less_induct)
  case (less i)
  show ?case
  proof (cases "i = 0")
    case True then show ?thesis by simp
  next
    case False
    let ?p = "(i - 1) div 2"
    have p: "?p < i" using False by simp
    then have "me_r2 (q ! 0) \<le> me_r2 (q ! ?p)" using less by simp
    moreover have "\<not> MergeElement_gt (q ! ?p) (q ! i)"
      using assms(1) False less.prems by (simp add: is_heap_def)
    ultimately show ?thesis by (simp add: MergeElement_gt_def)
  qed
qed

lemma pq_top_min:
  assumes "is_heap MergeElement_gt q" "e \<in> set q"
  shows "me_r2 (pq_top q) \<le> me_r2 e"
proof -
  obtain i where "i < length q" "q ! i = e" using assms(2) by (auto simp: in_set_conv_nth)
  then show ?thesis
    using heap_front_min[OF assms(1), of i] by (cases q) (simp_all add: pq_top_def)
qed

lemma pq_push_props:
  assumes "stdlib_ok lib" "is_heap MergeElement_gt q"
  shows "mset (pq_push lib e q) = add_mset e (mset q)" "is_heap MergeElement_gt (pq_push lib e q)"
proof -
  have "q @ [e] \<noteq> [] \<and> is_heap MergeElement_gt (butlast (q @ [e]))" using assms(2) by simp
  then have "mset (std_push_heap lib MergeElement_gt (q @ [e])) = mset (q @ [e]) \<and>
        is_heap MergeElement_gt (std_push_heap lib MergeElement_gt (q @ [e]))"
    using assms(1) unfolding stdlib_ok_def by blast
  then show "mset (pq_push lib e q) = add_mset e (mset q)"
    "is_heap MergeElement_gt (pq_push lib e q)"
    by (simp_all add: pq_push_def)
qed

lemma pq_pop_props:
  assumes "stdlib_ok lib" "is_heap MergeElement_gt q" "q \<noteq> []"
  shows "mset q = add_mset (pq_top q) (mset (pq_pop lib q))" "is_heap MergeElement_gt (pq_pop lib q)"
proof -
  let ?r = "std_pop_heap lib MergeElement_gt q"
  have r: "mset ?r = mset q \<and> last ?r = hd q \<and> is_heap MergeElement_gt (butlast ?r)"
    using assms unfolding stdlib_ok_def by blast
  then have "?r \<noteq> []" using assms(3) by (metis mset_zero_iff)
  then have "?r = butlast ?r @ [last ?r]" by simp
  then have "mset ?r = add_mset (last ?r) (mset (butlast ?r))"
    by (metis mset.simps(2) mset_append add_mset_add_single union_mset_add_mset_right add.right_neutral mset.simps(1))
  then show "mset q = add_mset (pq_top q) (mset (pq_pop lib q))"
    using r by (simp add: pq_top_def pq_pop_def)
  show "is_heap MergeElement_gt (pq_pop lib q)"
    using r by (simp add: pq_pop_def)
qed


section \<open>The k-way merge\<close>

lemma unread_step:
  assumes c: "c < m" and lt: "cp ! c < displs ! c + counts ! c" and len: "length cp = m"
  shows "unread displs counts m cp = add_mset (cp ! c) (unread displs counts m (cp[c := cp ! c + 1]))"
proof -
  let ?f = "\<lambda>cp c. mset [cp ! c..<displs ! c + counts ! c]"
  let ?cp' = "cp[c := cp ! c + 1]"
  have fin: "finite {..<m}" and cin: "c \<in> {..<m}" using c by simp_all
  have a: "(\<Sum>k \<in> {..<m}. ?f cp k) = ?f cp c + (\<Sum>k \<in> {..<m} - {c}. ?f cp k)"
    by (rule sum.remove[OF fin cin])
  have b: "(\<Sum>k \<in> {..<m}. ?f ?cp' k) = ?f ?cp' c + (\<Sum>k \<in> {..<m} - {c}. ?f ?cp' k)"
    by (rule sum.remove[OF fin cin])
  have r: "(\<Sum>k \<in> {..<m} - {c}. ?f ?cp' k) = (\<Sum>k \<in> {..<m} - {c}. ?f cp k)"
    by (rule sum.cong) simp_all
  have "[cp ! c..<displs ! c + counts ! c] = cp ! c # [Suc (cp ! c)..<displs ! c + counts ! c]"
    using lt by (rule upt_conv_Cons)
  then have h: "?f cp c = add_mset (cp ! c) (?f ?cp' c)"
    using c len by simp
  show ?thesis
    unfolding unread_def by (simp only: a b r h) simp
qed

lemma unread_empty:
  assumes "\<forall>c < m. cp ! c = displs ! c + counts ! c"
  shows "unread displs counts m cp = {#}"
  unfolding unread_def using assms by simp

lemma in_unread:
  "i \<in># unread displs counts m cp \<longleftrightarrow> (\<exists>c < m. cp ! c \<le> i \<and> i < displs ! c + counts ! c)"
  unfolding unread_def by (auto simp: set_mset_sum)

lemma inv_set_pq:
  assumes inv: "merge_inv r2 displs counts m A pq cp"
  shows "set pq = elem_at r2 cp ` A"
proof -
  have fin: "finite A" and ms: "mset pq = image_mset (elem_at r2 cp) (mset_set A)"
    using inv by (simp_all add: merge_inv_def)
  have "set_mset (mset pq) = set_mset (image_mset (elem_at r2 cp) (mset_set A))"
    by (simp only: ms)
  then show ?thesis using fin by simp
qed

lemma inv_top:
  assumes inv: "merge_inv r2 displs counts m A pq cp" and ne: "pq \<noteq> []"
  shows "\<exists>c \<in> A. pq_top pq = elem_at r2 cp c"
proof -
  have "pq_top pq \<in> set pq" using ne by (simp add: pq_top_def)
  then show ?thesis unfolding inv_set_pq[OF inv] by auto
qed

lemma top_min:
  assumes inv: "merge_inv r2 displs counts m A pq cp" and srt: "chunks_sorted r2 displs counts m"
    and ne: "pq \<noteq> []" and i: "i \<in># remaining displs counts m A cp"
  shows "me_r2 (pq_top pq) \<le> r2 ! i"
proof -
  have fin: "finite A" and heap: "is_heap MergeElement_gt pq"
    and ms: "mset pq = image_mset (elem_at r2 cp) (mset_set A)"
    and inA: "\<forall>c \<in> A. displs ! c < cp ! c \<and> cp ! c \<le> displs ! c + counts ! c"
    and notA: "\<forall>c < m. c \<notin> A \<longrightarrow> cp ! c = displs ! c + counts ! c"
    using inv by (simp_all add: merge_inv_def)
  have pend: "me_r2 (pq_top pq) \<le> r2 ! (cp ! c - 1)" if "c \<in> A" for c
  proof -
    have "elem_at r2 cp c \<in> set pq" using that by (simp add: inv_set_pq[OF inv])
    from pq_top_min[OF heap this] show ?thesis by (simp add: elem_at_def)
  qed
  from i consider
    (p) "i \<in># image_mset (\<lambda>c. cp ! c - 1) (mset_set A)" | (u) "i \<in># unread displs counts m cp"
    by (auto simp: remaining_def)
  then show ?thesis
  proof cases
    case p
    then obtain c where "c \<in> A" "i = cp ! c - 1" using fin by auto
    then show ?thesis using pend by simp
  next
    case u
    then obtain c where c: "c < m" "cp ! c \<le> i" "i < displs ! c + counts ! c"
      by (auto simp: in_unread)
    then have cA: "c \<in> A" using notA by force
    then have "displs ! c < cp ! c" using inA by simp
    then have "displs ! c \<le> cp ! c - 1" "cp ! c - 1 \<le> i" using c by simp_all
    then have "r2 ! (cp ! c - 1) \<le> r2 ! i"
      using srt c unfolding chunks_sorted_def by blast
    then show ?thesis using pend[OF cA] by simp
  qed
qed


lemma elem_at_update_other:
  "c' \<noteq> c \<Longrightarrow> elem_at r2 (cp[c := v]) c' = elem_at r2 cp c'"
  by (simp add: elem_at_def)

lemma merge_loop_correct:
  assumes lib: "stdlib_ok lib" and srt: "chunks_sorted r2 displs counts m"
  shows "merge_inv r2 displs counts m A pq cp \<Longrightarrow>
         size (remaining displs counts m A cp) \<le> free \<Longrightarrow>
         \<exists>out. merge_loop lib r2 displs counts free pq cp = Some out \<and>
               mset out = remaining displs counts m A cp \<and> sorted (map ((!) r2) out)"
proof (induction free arbitrary: A pq cp)
  case 0
  then have "card A = 0" "unread displs counts m cp = {#}"
    by (simp_all add: remaining_def)
  moreover have "finite A" "mset pq = image_mset (elem_at r2 cp) (mset_set A)"
    using 0 by (simp_all add: merge_inv_def)
  ultimately have "A = {}" "pq = []" by simp_all
  then show ?case using \<open>unread displs counts m cp = {#}\<close> by (simp add: remaining_def)
next
  case (Suc free)
  note inv = Suc.prems(1)
  have fin: "finite A" and sub: "A \<subseteq> {..<m}" and len: "length cp = m"
    and heap: "is_heap MergeElement_gt pq"
    and ms: "mset pq = image_mset (elem_at r2 cp) (mset_set A)"
    and inA: "\<forall>c \<in> A. displs ! c < cp ! c \<and> cp ! c \<le> displs ! c + counts ! c"
    and notA: "\<forall>c < m. c \<notin> A \<longrightarrow> cp ! c = displs ! c + counts ! c"
    using inv by (simp_all add: merge_inv_def)
  show ?case
  proof (cases "pq = []")
    case True
    then have "mset_set A = {#}" using ms by simp
    then have A: "A = {}" using fin by (simp add: mset_set_empty_iff)
    then have "unread displs counts m cp = {#}" using notA by (intro unread_empty) simp
    then show ?thesis using True A by (simp add: remaining_def)
  next
    case False
    obtain c where cA: "c \<in> A" and top: "pq_top pq = elem_at r2 cp c"
      using inv_top[OF inv False] by blast
    have cm: "c < m" using cA sub by auto
    define pq' where "pq' = pq_pop lib pq"
    have pop: "mset pq = add_mset (pq_top pq) (mset pq')" and heap': "is_heap MergeElement_gt pq'"
      unfolding pq'_def using pq_pop_props[OF lib heap False] by simp_all
    have A_split: "mset_set A = add_mset c (mset_set (A - {c}))"
      using fin cA by (rule mset_set.remove)
    have ms': "mset pq' = image_mset (elem_at r2 cp) (mset_set (A - {c}))"
      using pop ms top by (simp add: A_split)
    have idx: "me_source_idx (pq_top pq) = cp ! c - 1" and chk: "me_chunk_id (pq_top pq) = c"
      and r2top: "me_r2 (pq_top pq) = r2 ! (cp ! c - 1)"
      by (simp_all add: top elem_at_def)
    have min: "\<forall>i. i \<in># remaining displs counts m A cp \<longrightarrow> r2 ! (cp ! c - 1) \<le> r2 ! i"
      using top_min[OF inv srt False] r2top by simp
    have pend: "image_mset (\<lambda>c. cp ! c - 1) (mset_set A)
                = add_mset (cp ! c - 1) (image_mset (\<lambda>c. cp ! c - 1) (mset_set (A - {c})))"
      by (simp add: A_split)
    show ?thesis
    proof (cases "cp ! c < displs ! c + counts ! c")
      case True
      define cp' where "cp' = cp[c := cp ! c + 1]"
      define next_elem where "next_elem = \<lparr>me_r2 = r2 ! (cp ! c), me_source_idx = cp ! c, me_chunk_id = c\<rparr>"
      define pq'' where "pq'' = pq_push lib next_elem pq'"
      have nx: "next_elem = elem_at r2 cp' c"
        using cm len by (simp add: next_elem_def elem_at_def cp'_def)
      have push: "mset pq'' = add_mset next_elem (mset pq')" and heap'': "is_heap MergeElement_gt pq''"
        unfolding pq''_def using pq_push_props[OF lib heap'] by simp_all
      have cong1: "image_mset (elem_at r2 cp') (mset_set (A - {c}))
                   = image_mset (elem_at r2 cp) (mset_set (A - {c}))"
        using fin by (intro image_mset_cong) (simp add: cp'_def elem_at_update_other)
      have cong2: "image_mset (\<lambda>c. cp' ! c - 1) (mset_set (A - {c}))
                   = image_mset (\<lambda>c. cp ! c - 1) (mset_set (A - {c}))"
        using fin by (intro image_mset_cong) (simp add: cp'_def)
      have ms'': "mset pq'' = image_mset (elem_at r2 cp') (mset_set A)"
        by (simp add: push ms' A_split nx cong1)
      have inv': "merge_inv r2 displs counts m A pq'' cp'"
        unfolding merge_inv_def
      proof (intro conjI)
        show "\<forall>k \<in> A. displs ! k < cp' ! k \<and> cp' ! k \<le> displs ! k + counts ! k"
          using inA True cm len by (auto simp: cp'_def nth_list_update)
        show "\<forall>k < m. k \<notin> A \<longrightarrow> cp' ! k = displs ! k + counts ! k"
        proof (intro allI impI)
          fix k assume k: "k < m" "k \<notin> A"
          then have "k \<noteq> c" using cA by auto
          then show "cp' ! k = displs ! k + counts ! k" using notA k by (simp add: cp'_def)
        qed
      qed (simp_all add: fin sub len cp'_def heap'' ms''[unfolded cp'_def])
      have pend': "image_mset (\<lambda>c. cp' ! c - 1) (mset_set A)
                   = add_mset (cp ! c) (image_mset (\<lambda>c. cp ! c - 1) (mset_set (A - {c})))"
      proof -
        have "cp' ! c - 1 = cp ! c" using cm len by (simp add: cp'_def)
        moreover have "image_mset (\<lambda>c. cp' ! c - 1) (mset_set A)
              = add_mset (cp' ! c - 1) (image_mset (\<lambda>c. cp' ! c - 1) (mset_set (A - {c})))"
          by (simp add: A_split)
        ultimately show ?thesis by (simp only: cong2)
      qed
      have un: "unread displs counts m cp = add_mset (cp ! c) (unread displs counts m cp')"
        unfolding cp'_def by (rule unread_step[OF cm True len])
      have rem: "remaining displs counts m A cp
                 = add_mset (cp ! c - 1) (remaining displs counts m A cp')"
        unfolding remaining_def pend pend' un by simp
      then have "size (remaining displs counts m A cp') \<le> free"
        using Suc.prems(2) by simp
      from Suc.IH[OF inv' this] obtain out where
        out: "merge_loop lib r2 displs counts free pq'' cp' = Some out"
             "mset out = remaining displs counts m A cp'" "sorted (map ((!) r2) out)"
        by blast
      have "\<forall>i \<in> set out. r2 ! (cp ! c - 1) \<le> r2 ! i"
      proof
        fix i assume "i \<in> set out"
        then have "i \<in># mset out" by simp
        then have "i \<in># remaining displs counts m A cp" by (simp add: out(2) rem)
        then show "r2 ! (cp ! c - 1) \<le> r2 ! i" using min by blast
      qed
      then have "sorted (map ((!) r2) ((cp ! c - 1) # out))" using out(3) by simp
      moreover have "cp[c := Suc (cp ! c)] = cp'" by (simp add: cp'_def)
      then have "merge_loop lib r2 displs counts (Suc free) pq cp = Some ((cp ! c - 1) # out)"
        using False True out(1)
        by (simp add: Let_def idx chk pq'_def[symmetric] next_elem_def[symmetric]
            pq''_def[symmetric])
      ultimately show ?thesis using out(2) rem by simp
    next
      case False
      then have ce: "cp ! c = displs ! c + counts ! c" using inA cA by force
      have inv': "merge_inv r2 displs counts m (A - {c}) pq' cp"
        unfolding merge_inv_def
        using fin sub len heap' ms' inA notA ce by auto
      have rem: "remaining displs counts m A cp
                 = add_mset (cp ! c - 1) (remaining displs counts m (A - {c}) cp)"
        unfolding remaining_def pend by simp
      then have "size (remaining displs counts m (A - {c}) cp) \<le> free"
        using Suc.prems(2) by simp
      from Suc.IH[OF inv' this] obtain out where
        out: "merge_loop lib r2 displs counts free pq' cp = Some out"
             "mset out = remaining displs counts m (A - {c}) cp" "sorted (map ((!) r2) out)"
        by blast
      have "\<forall>i \<in> set out. r2 ! (cp ! c - 1) \<le> r2 ! i"
      proof
        fix i assume "i \<in> set out"
        then have "i \<in># mset out" by simp
        then have "i \<in># remaining displs counts m A cp" by (simp add: out(2) rem)
        then show "r2 ! (cp ! c - 1) \<le> r2 ! i" using min by blast
      qed
      then have "sorted (map ((!) r2) ((cp ! c - 1) # out))" using out(3) by simp
      moreover have "merge_loop lib r2 displs counts (Suc free) pq cp = Some ((cp ! c - 1) # out)"
        using \<open>pq \<noteq> []\<close> False out(1)
        by (simp add: Let_def idx chk pq'_def[symmetric])
      ultimately show ?thesis using out(2) rem by simp
    qed
  qed
qed

lemma started_finite [simp]: "finite (started counts k)"
  by (simp add: started_def)

lemma started_Suc:
  "started counts (Suc k) = (if counts ! k > 0 then insert k (started counts k) else started counts k)"
  by (auto simp: started_def less_Suc_eq)

lemma started_not_in: "k \<notin> started counts k"
  by (simp add: started_def)

lemma is_heap_Nil [simp]: "is_heap cmp []"
  by (simp add: is_heap_def)

lemma merge_init_inv:
  assumes lib: "stdlib_ok lib" and ld: "length displs = m"
  shows "k \<le> m \<Longrightarrow>
         init_inv r2 displs counts m k
           (fold (merge_init_step lib r2 displs counts) [0..<k] ([], map (\<lambda>c. displs ! c) [0..<m]))"
    (is "_ \<Longrightarrow> init_inv r2 displs counts m k (fold ?step [0..<k] ?s0)")
proof (induction k)
  case 0
  have "map (\<lambda>c. displs ! c) [0..<m] = displs" using map_nth[of displs] by (simp only: ld)
  then show ?case using ld by (simp add: init_inv_def started_def remaining_def)
next
  case (Suc k)
  then have k: "k < m" by simp
  obtain pq cp where st: "fold ?step [0..<k] ?s0 = (pq, cp)" by (cases "fold ?step [0..<k] ?s0") auto
  have inv: "init_inv r2 displs counts m k (pq, cp)" using Suc by (simp add: st)
  then have len: "length cp = m" and heap: "is_heap MergeElement_gt pq"
    and ms: "mset pq = image_mset (elem_at r2 cp) (mset_set (started counts k))"
    and pos: "\<forall>c < m. cp ! c = (if c \<in> started counts k then displs ! c + 1 else displs ! c)"
    and rem: "remaining displs counts m (started counts k) cp = unread displs counts m displs"
    by (simp_all add: init_inv_def)
  have cpk: "cp ! k = displs ! k" using pos k started_not_in[of k counts] by simp
  show ?case
  proof (cases "counts ! k > 0")
    case False
    then have "fold ?step [0..<Suc k] ?s0 = (pq, cp)"
      by (simp add: st merge_init_step_def)
    moreover have "started counts (Suc k) = started counts k" using False by (simp add: started_Suc)
    ultimately show ?thesis using inv by (simp add: init_inv_def)
  next
    case True
    define cp' where "cp' = cp[k := cp ! k + 1]"
    define e where "e = \<lparr>me_r2 = r2 ! (displs ! k), me_source_idx = displs ! k, me_chunk_id = k\<rparr>"
    have e: "e = elem_at r2 cp' k" using k len by (simp add: e_def elem_at_def cp'_def cpk)
    have st': "started counts (Suc k) = insert k (started counts k)"
      using True by (simp add: started_Suc)
    have ins: "mset_set (insert k (started counts k)) = add_mset k (mset_set (started counts k))"
      using started_not_in[of k counts] by simp
    have cong1: "image_mset (elem_at r2 cp') (mset_set (started counts k))
                 = image_mset (elem_at r2 cp) (mset_set (started counts k))"
    proof (rule image_mset_cong)
      fix c assume "c \<in># mset_set (started counts k)"
      then have "c \<noteq> k" using started_not_in[of k counts] by auto
      then show "elem_at r2 cp' c = elem_at r2 cp c" by (simp add: cp'_def elem_at_update_other)
    qed
    have cong2: "image_mset (\<lambda>c. cp' ! c - 1) (mset_set (started counts k))
                 = image_mset (\<lambda>c. cp ! c - 1) (mset_set (started counts k))"
    proof (rule image_mset_cong)
      fix c assume "c \<in># mset_set (started counts k)"
      then have "c \<noteq> k" using started_not_in[of k counts] by auto
      then show "cp' ! c - 1 = cp ! c - 1" by (simp add: cp'_def)
    qed
    have "cp ! k < displs ! k + counts ! k" using True cpk by simp
    from unread_step[OF k this len]
    have un: "unread displs counts m cp = add_mset (cp ! k) (unread displs counts m cp')"
      by (simp only: cp'_def)
    have ck: "cp' ! k - 1 = cp ! k" using k len by (simp add: cp'_def)
    have "remaining displs counts m (started counts (Suc k)) cp'
          = add_mset (cp' ! k - 1) (image_mset (\<lambda>c. cp' ! c - 1) (mset_set (started counts k)))
            + unread displs counts m cp'"
      unfolding remaining_def st' ins by simp
    also have "\<dots> = remaining displs counts m (started counts k) cp"
      unfolding remaining_def cong2 ck un by simp
    finally have rem': "remaining displs counts m (started counts (Suc k)) cp'
                        = unread displs counts m displs"
      by (simp only: rem)
    have "init_inv r2 displs counts m (Suc k) (pq_push lib e pq, cp')"
      unfolding init_inv_def prod.case
    proof (intro conjI)
      show "length cp' = m" by (simp add: cp'_def len)
      show "is_heap MergeElement_gt (pq_push lib e pq)" by (rule pq_push_props(2)[OF lib heap])
      show "mset (pq_push lib e pq) = image_mset (elem_at r2 cp') (mset_set (started counts (Suc k)))"
        unfolding st' ins by (simp add: pq_push_props(1)[OF lib heap] ms cong1 e)
      show "\<forall>c<m. cp' ! c = (if c \<in> started counts (Suc k) then displs ! c + 1 else displs ! c)"
        using pos k len cpk by (auto simp: st' cp'_def nth_list_update)
      show "remaining displs counts m (started counts (Suc k)) cp' = unread displs counts m displs"
        by (rule rem')
    qed
    moreover have "fold ?step [0..<Suc k] ?s0 = (pq_push lib e pq, cp')"
      using True by (simp add: st merge_init_step_def e_def cp'_def)
    ultimately show ?thesis by (simp only:)
  qed
qed


lemma chunks_tile:
  "k \<le> length counts \<Longrightarrow>
   (\<Sum>c \<in> {..<k}. mset [sum_list (take c counts)..<sum_list (take c counts) + counts ! c])
     = mset [0..<sum_list (take k counts)]"
proof (induction k)
  case 0
  show ?case by simp
next
  case (Suc k)
  then have k: "k < length counts" by simp
  have t: "sum_list (take (Suc k) counts) = sum_list (take k counts) + counts ! k"
    using sum_list_take_Suc[OF k] by simp
  have "[0..<sum_list (take k counts) + counts ! k]
        = [0..<sum_list (take k counts)] @ [sum_list (take k counts)..<sum_list (take k counts) + counts ! k]"
    by (rule upt_add_eq_append) simp
  then show ?case using Suc by (simp add: lessThan_Suc t)
qed

lemma unread_full:
  assumes "length counts = m"
  shows "unread (displs_of m counts) counts m (displs_of m counts) = mset [0..<sum_list counts]"
proof -
  have "unread (displs_of m counts) counts m (displs_of m counts)
        = (\<Sum>c \<in> {..<m}. mset [sum_list (take c counts)..<sum_list (take c counts) + counts ! c])"
    unfolding unread_def by (rule sum.cong) (simp_all add: displs_of_eq[OF assms])
  also have "\<dots> = mset [0..<sum_list (take m counts)]"
    using assms by (intro chunks_tile) simp
  finally show ?thesis using assms by simp
qed

text \<open>
  The k-way merge returns, and its \<open>merge_order\<close> is a permutation of the received positions
  that lists them by non-decreasing \<open>r2\<close>, when every received chunk is sorted.
\<close>

lemma kway_merge_correct:
  assumes lib: "stdlib_ok lib" and lc: "length counts = m"
    and srt: "chunks_sorted r2 (displs_of m counts) counts m"
  shows "\<exists>mo. kway_merge lib r2 (displs_of m counts) counts m (sum_list counts) = Some mo \<and>
              mset mo = mset [0..<sum_list counts] \<and> sorted (map ((!) r2) mo)"
proof (cases "sum_list counts > 0")
  case False
  then have z: "sum_list counts = 0" by simp
  have "kway_merge lib r2 (displs_of m counts) counts m 0 = Some []"
    by (simp add: kway_merge_def)
  then show ?thesis by (simp only: z) simp
next
  case True
  let ?d = "displs_of m counts"
  let ?N = "sum_list counts"
  have ld: "length ?d = m" by (simp add: displs_of_eq[OF lc])
  obtain pq cp where st: "merge_init lib r2 ?d counts m = (pq, cp)"
    by (cases "merge_init lib r2 ?d counts m") auto
  have "init_inv r2 ?d counts m m (pq, cp)"
    using merge_init_inv[OF lib ld, of m r2 counts] by (simp add: merge_init_def st[symmetric])
  then have len: "length cp = m" and heap: "is_heap MergeElement_gt pq"
    and ms: "mset pq = image_mset (elem_at r2 cp) (mset_set (started counts m))"
    and pos: "\<forall>c < m. cp ! c = (if c \<in> started counts m then ?d ! c + 1 else ?d ! c)"
    and rem: "remaining ?d counts m (started counts m) cp = unread ?d counts m ?d"
    by (simp_all add: init_inv_def)
  have inv: "merge_inv r2 ?d counts m (started counts m) pq cp"
    unfolding merge_inv_def
  proof (intro conjI)
    show "started counts m \<subseteq> {..<m}" by (auto simp: started_def)
    show "\<forall>c \<in> started counts m. ?d ! c < cp ! c \<and> cp ! c \<le> ?d ! c + counts ! c"
      using pos by (auto simp: started_def)
    show "\<forall>c < m. c \<notin> started counts m \<longrightarrow> cp ! c = ?d ! c + counts ! c"
      using pos by (auto simp: started_def)
  qed (simp_all add: len heap ms)
  have rem': "remaining ?d counts m (started counts m) cp = mset [0..<?N]"
    using rem unread_full[OF lc] by simp
  then have "size (remaining ?d counts m (started counts m) cp) \<le> ?N" by simp
  from merge_loop_correct[OF lib srt inv this] obtain out where
    out: "merge_loop lib r2 ?d counts ?N pq cp = Some out"
         "mset out = remaining ?d counts m (started counts m) cp" "sorted (map ((!) r2) out)"
    by blast
  have "length out = ?N" using out(2) rem' by (metis length_upt mset_eq_length minus_nat.diff_0)
  then have "kway_merge lib r2 ?d counts m ?N = Some out"
    using True out(1) by (simp add: kway_merge_def st)
  then show ?thesis using out rem' by simp
qed

section \<open>Installing the merged shell\<close>

lemma length_vec_resize [simp]: "length (vec_resize n v) = n"
  by (simp add: vec_resize_def)

lemma gather_eq:
  assumes "length arr = n"
  shows "gather mo n recv arr = map (\<lambda>i. recv ! (mo ! i)) [0..<n]"
  unfolding gather_def using assms by (rule fold_list_update_all)

lemma nine_nth:
  "length r = 9 \<Longrightarrow> [r ! 0, r ! 1, r ! 2, r ! 3, r ! 4, r ! 5, r ! 6, r ! 7, r ! 8] = (r :: real list)"
  by (rule nth_equalityI) (auto simp: nth_Cons' numeral_eq_Suc less_Suc_eq)

lemma install_fields:
  fixes orig :: ParticleSystem
  assumes rs: "\<forall>r \<in> set recs. length r = num_fields" and lm: "length mo = length recs"
    and mo: "\<forall>j \<in> set mo. j < length recs"
  defines "ps' \<equiv> install mo (length recs) (concat recs) orig"
  shows "ps_n_particles ps' = length recs"
    and "ps_x ps' = map (\<lambda>j. recs ! j ! 0) mo" and "ps_y ps' = map (\<lambda>j. recs ! j ! 1) mo"
    and "ps_z ps' = map (\<lambda>j. recs ! j ! 2) mo" and "ps_vx ps' = map (\<lambda>j. recs ! j ! 3) mo"
    and "ps_vy ps' = map (\<lambda>j. recs ! j ! 4) mo" and "ps_vz ps' = map (\<lambda>j. recs ! j ! 5) mo"
    and "ps_q ps' = map (\<lambda>j. recs ! j ! 6) mo" and "ps_Er ps' = map (\<lambda>j. recs ! j ! 7) mo"
    and "ps_r2 ps' = map (\<lambda>j. recs ! j ! 8) mo"
    and "ps_name ps' = ps_name orig" and "ps_iqom ps' = ps_iqom orig" and "ps_n_total ps' = ps_n_total orig"
proof -
  have g: "gather mo (length recs) (unpack k (length recs) (concat recs)) (vec_resize (length recs) arr)
           = map (\<lambda>j. recs ! j ! k) mo" if k: "k < num_fields" for k arr
  proof -
    have "gather mo (length recs) (unpack k (length recs) (concat recs)) (vec_resize (length recs) arr)
          = map (\<lambda>i. map (\<lambda>r. r ! k) recs ! (mo ! i)) [0..<length recs]"
      by (simp add: gather_eq unpack_concat[OF rs k])
    also have "\<dots> = map (\<lambda>j. recs ! j ! k) mo"
      using mo lm by (intro nth_equalityI) simp_all
    finally show ?thesis .
  qed
  show "ps_n_particles ps' = length recs"
    by (simp add: ps'_def install_def Let_def resize_def)
  show "ps_x ps' = map (\<lambda>j. recs ! j ! 0) mo"
    using g[of 0] by (simp add: ps'_def install_def Let_def resize_def num_fields_def)
  show "ps_y ps' = map (\<lambda>j. recs ! j ! 1) mo"
    using g[of 1] by (simp add: ps'_def install_def Let_def resize_def num_fields_def)
  show "ps_z ps' = map (\<lambda>j. recs ! j ! 2) mo"
    using g[of 2] by (simp add: ps'_def install_def Let_def resize_def num_fields_def)
  show "ps_vx ps' = map (\<lambda>j. recs ! j ! 3) mo"
    using g[of 3] by (simp add: ps'_def install_def Let_def resize_def num_fields_def)
  show "ps_vy ps' = map (\<lambda>j. recs ! j ! 4) mo"
    using g[of 4] by (simp add: ps'_def install_def Let_def resize_def num_fields_def)
  show "ps_vz ps' = map (\<lambda>j. recs ! j ! 5) mo"
    using g[of 5] by (simp add: ps'_def install_def Let_def resize_def num_fields_def)
  show "ps_q ps' = map (\<lambda>j. recs ! j ! 6) mo"
    using g[of 6] by (simp add: ps'_def install_def Let_def resize_def num_fields_def)
  show "ps_Er ps' = map (\<lambda>j. recs ! j ! 7) mo"
    using g[of 7] by (simp add: ps'_def install_def Let_def resize_def num_fields_def)
  show "ps_r2 ps' = map (\<lambda>j. recs ! j ! 8) mo"
    using g[of 8] by (simp add: ps'_def install_def Let_def resize_def num_fields_def)
  show "ps_name ps' = ps_name orig" "ps_iqom ps' = ps_iqom orig" "ps_n_total ps' = ps_n_total orig"
    by (simp_all add: ps'_def install_def Let_def resize_def)
qed

lemma install_records:
  assumes rs: "\<forall>r \<in> set recs. length r = num_fields" and lm: "length mo = length recs"
    and mo: "\<forall>j \<in> set mo. j < length recs"
  shows "records (install mo (length recs) (concat recs) orig) = map ((!) recs) mo"
    and "ps_wf (install mo (length recs) (concat recs) orig)"
proof -
  note f = install_fields[OF assms, where orig = orig]
  show "records (install mo (length recs) (concat recs) orig) = map ((!) recs) mo"
  proof (rule nth_equalityI)
    show "length (records (install mo (length recs) (concat recs) orig)) = length (map ((!) recs) mo)"
      by (simp add: records_def f(1) lm)
  next
    fix i assume "i < length (records (install mo (length recs) (concat recs) orig))"
    then have i: "i < length mo" by (simp add: records_def f(1) lm)
    then have "mo ! i < length recs" using mo by simp
    then have "length (recs ! (mo ! i)) = 9" using rs by (simp add: num_fields_def)
    from nine_nth[OF this] show "records (install mo (length recs) (concat recs) orig) ! i = map ((!) recs) mo ! i"
      using i by (simp add: records_def f lm particle_record_def)
  qed
  show "ps_wf (install mo (length recs) (concat recs) orig)"
    by (simp add: ps_wf_def f lm)
qed

section \<open>The received chunks are sorted\<close>

lemma concat_nth_chunk:
  assumes "s < length cs" "t < length (cs ! s)"
  shows "length (concat (take s cs)) + t < length (concat cs)"
    and "concat cs ! (length (concat (take s cs)) + t) = cs ! s ! t"
proof -
  have "concat cs = concat (take s cs @ cs ! s # drop (Suc s) cs)"
    using assms(1) by (simp only: id_take_nth_drop[symmetric])
  then have c: "concat cs = concat (take s cs) @ cs ! s @ concat (drop (Suc s) cs)" by simp
  have "length (concat cs) = length (concat (take s cs)) + length (cs ! s) + length (concat (drop (Suc s) cs))"
    by (subst c) simp
  then show "length (concat (take s cs)) + t < length (concat cs)"
    using assms(2) by simp
  have "concat cs ! (length (concat (take s cs)) + t)
        = (concat (take s cs) @ cs ! s @ concat (drop (Suc s) cs)) ! (length (concat (take s cs)) + t)"
    by (subst c) (rule refl)
  also have "\<dots> = cs ! s ! t" using assms(2) by (simp add: nth_append)
  finally show "concat cs ! (length (concat (take s cs)) + t) = cs ! s ! t" .
qed

lemma sorted_nth_filter:
  assumes "sorted (xs :: real list)"
  shows "sorted (map ((!) xs) (filter P [0..<length xs]))"
proof -
  have "sorted_wrt (\<lambda>a b. a < b \<and> b < length xs) [0..<length xs]"
    by (simp add: sorted_wrt_iff_nth_less)
  then have "sorted_wrt (\<lambda>a b. xs ! a \<le> xs ! b) [0..<length xs]"
    by (rule sorted_wrt_mono_rel[rotated]) (auto intro: sorted_nth_mono[OF assms])
  then have "sorted_wrt (\<lambda>a b. xs ! a \<le> xs ! b) (filter P [0..<length xs])"
    by (rule sorted_wrt_filter)
  then show ?thesis by (simp add: sorted_map)
qed

lemma record_r2 [simp]: "particle_record ps i ! 8 = ps_r2 ps ! i"
  by (simp add: particle_record_def)

lemma recv_chunk_sorted:
  assumes s: "s < length sst" and srt: "sorted (ps_r2 (sst ! s))"
    and len: "length (ps_r2 (sst ! s)) = ps_n_particles (sst ! s)"
  shows "sorted (map (\<lambda>r. r ! 8) (recv_chunks sst p ! s))"
proof -
  have "map (\<lambda>r. r ! 8) (recv_chunks sst p ! s)
        = map ((!) (ps_r2 (sst ! s))) (bucket_of (splitters_of sst) (sst ! s) p)"
    using s by (simp add: recv_chunks_nth comp_def)
  also have "\<dots> = map ((!) (ps_r2 (sst ! s)))
                     (filter (\<lambda>i. dest_of (splitters_of sst) (sst ! s) i = p) [0..<length (ps_r2 (sst ! s))])"
    by (simp add: bucket_of_def len)
  finally show ?thesis using sorted_nth_filter[OF srt] by simp
qed

lemma recv_chunks_sorted:
  assumes srt: "\<forall>ps \<in> set sst. sorted (ps_r2 ps) \<and> length (ps_r2 ps) = ps_n_particles ps"
  shows "chunks_sorted (map (\<lambda>r. r ! 8) (recv_records sst p))
           (displs_of (length sst) (chunk_counts sst p)) (chunk_counts sst p) (length sst)"
  unfolding chunks_sorted_def
proof (intro allI impI)
  fix c i j
  let ?cs = "recv_chunks sst p"
  let ?d = "displs_of (length sst) (chunk_counts sst p)"
  assume c: "c < length sst"
    and ij: "?d ! c \<le> i \<and> i \<le> j \<and> j < ?d ! c + chunk_counts sst p ! c"
  have lc: "length (chunk_counts sst p) = length sst" by simp
  have cnt: "chunk_counts sst p ! c = length (?cs ! c)" using c by (simp add: chunk_counts_def)
  have "?d ! c = sum_list (take c (chunk_counts sst p))"
    using c by (simp add: displs_of_eq[OF lc])
  also have "\<dots> = length (concat (take c ?cs))"
    by (simp add: chunk_counts_def take_map length_concat)
  finally have d: "?d ! c = length (concat (take c ?cs))" .
  define ti where "ti = i - ?d ! c"
  define tj where "tj = j - ?d ! c"
  have ij': "?d ! c \<le> i" "i \<le> j" "j < ?d ! c + length (?cs ! c)"
    using ij cnt by simp_all
  have t: "ti \<le> tj" "tj < length (?cs ! c)" "i = length (concat (take c ?cs)) + ti"
    "j = length (concat (take c ?cs)) + tj"
    unfolding ti_def tj_def d[symmetric] using ij' by linarith+
  then have ti: "ti < length (?cs ! c)" by simp
  have cl: "c < length ?cs" using c by simp
  have ri: "recv_records sst p ! i = ?cs ! c ! ti" "i < length (recv_records sst p)"
    using concat_nth_chunk[OF cl ti] by (simp_all add: recv_records_def t(3))
  have rj: "recv_records sst p ! j = ?cs ! c ! tj" "j < length (recv_records sst p)"
    using concat_nth_chunk[OF cl t(2)] by (simp_all add: recv_records_def t(4))
  have "sst ! c \<in> set sst" using c by simp
  then have "sorted (map (\<lambda>r. r ! 8) (?cs ! c))"
    using srt by (intro recv_chunk_sorted[OF c]) simp_all
  then have "map (\<lambda>r. r ! 8) (?cs ! c) ! ti \<le> map (\<lambda>r. r ! 8) (?cs ! c) ! tj"
    using t(1,2) by (intro sorted_nth_mono) simp_all
  then show "map (\<lambda>r. r ! 8) (recv_records sst p) ! i \<le> map (\<lambda>r. r ! 8) (recv_records sst p) ! j"
    using ri rj ti t(2) by simp
qed

text \<open>What steps 5 to 10 leave on rank \<open>p\<close>.\<close>

lemma exchange_rank_result:
  assumes lib: "stdlib_ok lib" and p: "p < length sst"
    and srt: "\<forall>ps \<in> set sst. sorted (ps_r2 ps) \<and> length (ps_r2 ps) = ps_n_particles ps"
  shows "\<exists>ps' mo. exchange_rank lib sst p = Some ps' \<and>
           mset mo = mset [0..<length (recv_records sst p)] \<and>
           records ps' = map ((!) (recv_records sst p)) mo \<and>
           ps_r2 ps' = map (\<lambda>j. recv_records sst p ! j ! 8) mo \<and>
           sorted (ps_r2 ps') \<and> ps_wf ps' \<and>
           ps_n_particles ps' = length (recv_records sst p) \<and>
           ps_name ps' = ps_name (sst ! p) \<and> ps_iqom ps' = ps_iqom (sst ! p) \<and>
           ps_n_total ps' = ps_n_total (sst ! p)"
proof -
  let ?recs = "recv_records sst p"
  let ?cc = "chunk_counts sst p"
  have N: "sum_list ?cc = length ?recs"
    by (simp add: chunk_counts_def recv_records_def length_concat)
  have lc: "length ?cc = length sst" by simp
  from kway_merge_correct[OF lib lc recv_chunks_sorted[OF srt]]
  obtain mo where mo: "kway_merge lib (map (\<lambda>r. r ! 8) ?recs) (displs_of (length sst) ?cc) ?cc
                         (length sst) (length ?recs) = Some mo"
      "mset mo = mset [0..<length ?recs]" "sorted (map ((!) (map (\<lambda>r. r ! 8) ?recs)) mo)"
    unfolding N by blast
  have lm: "length mo = length ?recs"
    using mo(2) by (metis length_upt mset_eq_length minus_nat.diff_0)
  have "set mo = set [0..<length ?recs]" using mo(2) by (rule mset_eq_setD)
  then have bound: "\<forall>j \<in> set mo. j < length ?recs" by simp
  have rs: "\<forall>r \<in> set ?recs. length r = num_fields" by (simp add: recv_records_fields)
  let ?ps' = "install mo (length ?recs) (concat ?recs) (sst ! p)"
  note f = install_fields[OF rs lm bound, where orig = "sst ! p"]
  note r = install_records[OF rs lm bound, where orig = "sst ! p"]
  have ex: "exchange_rank lib sst p = Some ?ps'"
    by (simp add: exchange_rank_eq[OF p] mo(1))
  have "map ((!) (map (\<lambda>r. r ! 8) ?recs)) mo = map (\<lambda>j. ?recs ! j ! 8) mo"
    using bound by (intro map_cong) simp_all
  then have "sorted (map (\<lambda>j. ?recs ! j ! 8) mo)" using mo(3) by (simp only:)
  then have "sorted (ps_r2 ?ps')" by (simp only: f(10))
  then show ?thesis
    using ex mo(2) r f by blast
qed

section \<open>All ranks together\<close>

lemma all_ranks_Some:
  "\<forall>r \<in> set rs. r \<noteq> None \<Longrightarrow> all_ranks rs = Some (map the rs)"
  by (induction rs rule: all_ranks.induct) simp_all

lemma sorted_shells:
  assumes "stdlib_ok lib" "shells_wf st"
  shows "\<forall>ps \<in> set (map (local_sort lib) st). sorted (ps_r2 ps) \<and> length (ps_r2 ps) = ps_n_particles ps"
proof
  fix ps assume "ps \<in> set (map (local_sort lib) st)"
  then obtain ps0 where ps0: "ps0 \<in> set st" "ps = local_sort lib ps0" by auto
  then have wf: "ps_wf ps0" using assms(2) by (simp add: shells_wf_def list_all_iff)
  show "sorted (ps_r2 ps) \<and> length (ps_r2 ps) = ps_n_particles ps"
    using local_sort_sorted[OF assms(1) wf] local_sort_wf[OF assms(1) wf]
    by (simp add: ps0(2) ps_wf_def)
qed

text \<open>
  The call returns on every rank, and rank \<open>p\<close> holds what \<open>exchange_rank\<close> gives it (more
  than one rank).
\<close>

lemma sort_multi:
  assumes lib: "stdlib_ok lib" and wf: "shells_wf st" and m: "length st \<noteq> 1"
  shows "\<exists>st'. sortParticlesParallel lib st = Some st' \<and> length st' = length st \<and>
           (\<forall>p < length st. exchange_rank lib (map (local_sort lib) st) p = Some (st' ! p))"
proof -
  let ?sst = "map (local_sort lib) st"
  let ?rs = "map (exchange_rank lib ?sst) [0..<length st]"
  have "\<forall>r \<in> set ?rs. r \<noteq> None"
  proof
    fix r assume "r \<in> set ?rs"
    then obtain p where p: "p < length ?sst" "r = exchange_rank lib ?sst p" by auto
    from exchange_rank_result[OF lib p(1) sorted_shells[OF lib wf]]
    show "r \<noteq> None" using p(2) by auto
  qed
  then have a: "all_ranks ?rs = Some (map the ?rs)" by (rule all_ranks_Some)
  have "\<forall>p < length st. exchange_rank lib ?sst p = Some (map the ?rs ! p)"
  proof (intro allI impI)
    fix p assume p: "p < length st"
    then have p': "p < length ?sst" by simp
    from exchange_rank_result[OF lib p' sorted_shells[OF lib wf]]
    obtain ps' where "exchange_rank lib ?sst p = Some ps'" by blast
    then show "exchange_rank lib ?sst p = Some (map the ?rs ! p)" using p by simp
  qed
  then show ?thesis using m a by (simp add: sortParticlesParallel_def Let_def)
qed

lemma lower_bound_mono: "w \<le> v \<Longrightarrow> lower_bound spl w \<le> lower_bound spl v"
  unfolding lower_bound_def by (induction spl) auto

text \<open>Every particle that rank \<open>p\<close> receives has destination \<open>p\<close>.\<close>

lemma recv_records_dest:
  assumes "r \<in> set (recv_records sst p)"
  shows "\<exists>s i. s < length sst \<and> i < ps_n_particles (sst ! s) \<and> r = particle_record (sst ! s) i \<and>
               lower_bound (splitters_of sst) (r ! 8) = p"
proof -
  from assms obtain s where s: "s < length sst"
    "r \<in> set (map (particle_record (sst ! s)) (bucket_of (splitters_of sst) (sst ! s) p))"
    by (auto simp: recv_records_def recv_chunks_def)
  then obtain i where "i \<in> set (bucket_of (splitters_of sst) (sst ! s) p)" "r = particle_record (sst ! s) i"
    by auto
  then show ?thesis using s(1) by (auto simp: bucket_of_def dest_of_def)
qed

lemma sorted_concat:
  assumes "\<forall>xs \<in> set xss. sorted (xs :: real list)"
    and "\<forall>b < length xss. \<forall>a < b. \<forall>v \<in> set (xss ! a). \<forall>w \<in> set (xss ! b). v \<le> w"
  shows "sorted (concat xss)"
  using assms
proof (induction xss)
  case Nil
  show ?case by simp
next
  case (Cons xs xss)
  have 1: "sorted (concat xss)"
  proof (rule Cons.IH)
    show "\<forall>xs \<in> set xss. sorted xs" using Cons.prems(1) by simp
    show "\<forall>b < length xss. \<forall>a < b. \<forall>v \<in> set (xss ! a). \<forall>w \<in> set (xss ! b). v \<le> w"
    proof (intro allI impI ballI)
      fix b a v w assume "b < length xss" "a < b" "v \<in> set (xss ! a)" "w \<in> set (xss ! b)"
      then show "v \<le> w" using Cons.prems(2)[rule_format, of "Suc b" "Suc a" v w] by simp
    qed
  qed
  have 2: "v \<le> w" if "v \<in> set xs" "w \<in> set (concat xss)" for v w
  proof -
    from that(2) obtain ys where "ys \<in> set xss" "w \<in> set ys" by auto
    then obtain b where "b < length xss" "xss ! b = ys" by (auto simp: in_set_conv_nth)
    then show ?thesis using Cons.prems(2)[rule_format, of "Suc b" 0 v w] that(1) \<open>w \<in> set ys\<close> by simp
  qed
  show ?case using Cons.prems(1) 1 2 by (auto simp: sorted_append)
qed

lemma sort_sorted:
  assumes lib: "stdlib_ok lib" and wf: "shells_wf st"
  shows "\<exists>st'. sortParticlesParallel lib st = Some st' \<and> length st' = length st \<and>
               shells_wf st' \<and> I1 st' \<and> I2 st'"
proof (cases "length st = 1")
  case True
  then obtain ps where st: "st = [ps]" by (cases st) auto
  then have w: "ps_wf ps" using wf by (simp add: shells_wf_def)
  have "sorted (ps_r2 ps)" if "ps_n_particles ps = 0" using that w by (simp add: ps_wf_def)
  then show ?thesis
    using local_sort_sorted[OF lib w] local_sort_wf[OF lib w] w
    by (simp add: sortParticlesParallel_def st I1_def I2_def shells_wf_def)
next
  case False
  let ?sst = "map (local_sort lib) st"
  from sort_multi[OF lib wf False] obtain st' where
    st': "sortParticlesParallel lib st = Some st'" "length st' = length st"
         "\<forall>p < length st. exchange_rank lib ?sst p = Some (st' ! p)" by blast
  have res: "sorted (ps_r2 (st' ! p)) \<and> ps_wf (st' ! p) \<and>
             (\<forall>v \<in> set (ps_r2 (st' ! p)). lower_bound (splitters_of ?sst) v = p)"
    if p: "p < length st" for p
  proof -
    have p': "p < length ?sst" using p by simp
    from exchange_rank_result[OF lib p' sorted_shells[OF lib wf]] st'(3) p
    obtain mo where mo: "mset mo = mset [0..<length (recv_records ?sst p)]"
      "ps_r2 (st' ! p) = map (\<lambda>j. recv_records ?sst p ! j ! 8) mo"
      "sorted (ps_r2 (st' ! p))" "ps_wf (st' ! p)" by auto
    have "set mo = set [0..<length (recv_records ?sst p)]" using mo(1) by (rule mset_eq_setD)
    then have "\<forall>j \<in> set mo. recv_records ?sst p ! j \<in> set (recv_records ?sst p)" by simp
    then have "\<forall>v \<in> set (ps_r2 (st' ! p)). lower_bound (splitters_of ?sst) v = p"
      using recv_records_dest[of _ ?sst p] by (auto simp: mo(2))
    then show ?thesis using mo by simp
  qed
  have "I1 st'" unfolding I1_def using res st'(2) by (auto simp: in_set_conv_nth)
  moreover have "shells_wf st'"
    unfolding shells_wf_def list_all_iff using res st'(2) by (auto simp: in_set_conv_nth)
  moreover have "I2 st'"
    unfolding I2_def
  proof (intro ballI)
    fix b a v w
    assume b: "b \<in> set [0..<length st']" and a: "a \<in> set [0..<b]"
      and v: "v \<in> set (ps_r2 (st' ! a))" and w: "w \<in> set (ps_r2 (st' ! b))"
    have "lower_bound (splitters_of ?sst) v = a" "lower_bound (splitters_of ?sst) w = b"
      using res[of a] res[of b] a b v w st'(2) by auto
    then show "v \<le> w"
      using lower_bound_mono[of w v "splitters_of ?sst"] a by (cases "v \<le> w") auto
  qed
  ultimately show ?thesis using st' by blast
qed

section \<open>Conservation of the particle records\<close>

lemma mset_concat_upt:
  "mset (concat (map f [0..<m])) = (\<Sum>i \<in> {..<m}. mset (f i))"
  by (induction m) (simp_all add: lessThan_Suc add.commute)

lemma mset_concat_nth:
  "mset (concat xss) = (\<Sum>i \<in> {..<length xss}. mset (xss ! i))"
  using mset_concat_upt[of "(!) xss" "length xss"] by (simp add: map_nth)

lemma partition_by_dest:
  "\<forall>x \<in> set xs. f x < (m::nat) \<Longrightarrow>
   (\<Sum>p \<in> {..<m}. mset (map g (filter (\<lambda>x. f x = p) xs))) = mset (map g xs)"
proof (induction xs)
  case Nil
  show ?case by simp
next
  case (Cons x xs)
  have fx: "f x \<in> {..<m}" using Cons.prems by simp
  have "(\<Sum>p \<in> {..<m}. mset (map g (filter (\<lambda>x. f x = p) (x # xs))))
        = (\<Sum>p \<in> {..<m}. (if f x = p then {#g x#} else {#}) + mset (map g (filter (\<lambda>x. f x = p) xs)))"
    by (rule sum.cong) simp_all
  also have "\<dots> = (\<Sum>p \<in> {..<m}. if f x = p then {#g x#} else {#})
                   + (\<Sum>p \<in> {..<m}. mset (map g (filter (\<lambda>x. f x = p) xs)))"
    by (rule sum.distrib)
  also have "(\<Sum>p \<in> {..<m}. if f x = p then {#g x#} else {#}) = {#g x#}"
  proof -
    have "(\<Sum>p \<in> {..<m}. if f x = p then {#g x#} else {#})
          = (if f x \<in> {..<m} then {#g x#} else {#})"
      by (rule sum.delta') simp
    then show ?thesis using fx by simp
  qed
  also have "(\<Sum>p \<in> {..<m}. mset (map g (filter (\<lambda>x. f x = p) xs))) = mset (map g xs)"
    using Cons by simp
  finally show ?case by simp
qed

lemma mset_recv_records:
  "mset (recv_records sst p)
     = (\<Sum>s \<in> {..<length sst}. mset (map (particle_record (sst ! s))
                                       (bucket_of (splitters_of sst) (sst ! s) p)))"
  unfolding recv_records_def recv_chunks_def by (rule mset_concat_upt)

lemma dest_bound:
  assumes "sst \<noteq> []"
  shows "dest_of (splitters_of sst) ps i < length sst"
proof -
  have "lower_bound (splitters_of sst) (ps_r2 ps ! i) \<le> length sst - 1"
    using lower_bound_le[of "splitters_of sst"] by (simp add: splitters_length)
  then show ?thesis using assms by (cases sst) (simp_all add: dest_of_def)
qed

text \<open>Over all ranks, what is received is what the shells held after the local sort.\<close>

lemma recv_records_all:
  "(\<Sum>p \<in> {..<length sst}. mset (recv_records sst p)) = mset (concat (map records sst))"
proof (cases "sst = []")
  case True
  then show ?thesis by simp
next
  case False
  let ?m = "length sst"
  let ?F = "\<lambda>s p. mset (map (particle_record (sst ! s)) (bucket_of (splitters_of sst) (sst ! s) p))"
  have "(\<Sum>p \<in> {..<?m}. mset (recv_records sst p)) = (\<Sum>p \<in> {..<?m}. \<Sum>s \<in> {..<?m}. ?F s p)"
    by (simp only: mset_recv_records)
  also have "\<dots> = (\<Sum>s \<in> {..<?m}. \<Sum>p \<in> {..<?m}. ?F s p)"
    by (rule sum.swap)
  also have "\<dots> = (\<Sum>s \<in> {..<?m}. mset (records (sst ! s)))"
  proof (rule sum.cong)
    fix s assume "s \<in> {..<?m}"
    have "\<forall>i \<in> set [0..<ps_n_particles (sst ! s)]. dest_of (splitters_of sst) (sst ! s) i < ?m"
      using dest_bound[OF False] by simp
    from partition_by_dest[OF this, of "particle_record (sst ! s)"]
    show "(\<Sum>p \<in> {..<?m}. ?F s p) = mset (records (sst ! s))"
      by (simp add: bucket_of_def records_def)
  qed simp
  also have "\<dots> = (\<Sum>s \<in> {..<length (map records sst)}. mset (map records sst ! s))"
    by (rule sum.cong) simp_all
  also have "\<dots> = mset (concat (map records sst))"
    by (rule mset_concat_nth[symmetric])
  finally show ?thesis .
qed


lemma consistent_imp_fixed:
  assumes wf: "ps_wf ps"
    and c: "\<forall>i < ps_n_particles ps. record_consistent (particle_record ps i)"
  shows "computeSquareRadius ps = ps"
proof -
  have "map (r2_of ps) [0..<ps_n_particles ps] = ps_r2 ps"
  proof (rule nth_equalityI)
    show "length (map (r2_of ps) [0..<ps_n_particles ps]) = length (ps_r2 ps)"
      using wf by (simp add: ps_wf_def)
  next
    fix i assume "i < length (map (r2_of ps) [0..<ps_n_particles ps])"
    then have i: "i < ps_n_particles ps" by simp
    then have "record_consistent (particle_record ps i)" using c by simp
    then show "map (r2_of ps) [0..<ps_n_particles ps] ! i = ps_r2 ps ! i"
      using i by (simp add: record_consistent_def particle_record_def r2_of_def)
  qed
  then show ?thesis by (simp add: computeSquareRadius_eq[OF wf])
qed

lemma local_sort_consistent:
  assumes "stdlib_ok lib" "ps_wf ps" "i < ps_n_particles ps"
  shows "record_consistent (particle_record (local_sort lib ps) i)"
  using local_sort_I3[OF assms]
  by (simp add: record_consistent_def particle_record_def r2_of_def)

lemma local_sort_fixed:
  assumes "stdlib_ok lib" "ps_wf ps"
  shows "computeSquareRadius (local_sort lib ps) = local_sort lib ps"
  using local_sort_wf[OF assms] local_sort_consistent[OF assms]
  by (intro consistent_imp_fixed) simp_all

lemma mset_map_nth_perm:
  assumes "mset mo = mset [0..<length xs]"
  shows "mset (map ((!) xs) mo) = mset xs"
proof -
  have "mset (map ((!) xs) mo) = image_mset ((!) xs) (mset mo)" by simp
  also have "\<dots> = image_mset ((!) xs) (mset [0..<length xs])" by (simp only: assms)
  also have "\<dots> = mset (map ((!) xs) [0..<length xs])" by simp
  finally show ?thesis by (simp add: map_nth)
qed

lemma sort_conserves:
  assumes lib: "stdlib_ok lib" and wf: "shells_wf st"
  shows "\<exists>st'. sortParticlesParallel lib st = Some st' \<and>
               mset (all_records st') = mset (all_records st) \<and>
               map computeSquareRadius st' = st' \<and>
               mset (concat (map records st')) = mset (all_records st)"
proof (cases "length st = 1")
  case True
  then obtain ps where st: "st = [ps]" by (cases st) auto
  then have w: "ps_wf ps" using wf by (simp add: shells_wf_def)
  show ?thesis
  proof (cases "ps_n_particles ps = 0")
    case True
    then have "computeSquareRadius ps = ps" using w by (intro consistent_imp_fixed) simp_all
    then show ?thesis using True by (simp add: sortParticlesParallel_def st all_records_def)
  next
    case False
    then show ?thesis
      using local_sort_fixed[OF lib w] local_sort_records[OF lib w]
      by (simp add: sortParticlesParallel_def st all_records_def)
  qed
next
  case False
  let ?sst = "map (local_sort lib) st"
  let ?m = "length st"
  from sort_multi[OF lib wf False] obtain st' where
    st': "sortParticlesParallel lib st = Some st'" "length st' = ?m"
         "\<forall>p < ?m. exchange_rank lib ?sst p = Some (st' ! p)" by blast
  have sw: "ps_wf ps" if "ps \<in> set st" for ps
    using wf that by (simp add: shells_wf_def list_all_iff)
  have res: "mset (records (st' ! p)) = mset (recv_records ?sst p) \<and>
             computeSquareRadius (st' ! p) = st' ! p" if p: "p < ?m" for p
  proof -
    have p': "p < length ?sst" using p by simp
    from exchange_rank_result[OF lib p' sorted_shells[OF lib wf]] st'(3) p
    obtain mo where mo: "mset mo = mset [0..<length (recv_records ?sst p)]"
      "records (st' ! p) = map ((!) (recv_records ?sst p)) mo" "ps_wf (st' ! p)"
      "ps_n_particles (st' ! p) = length (recv_records ?sst p)" by auto
    have lm: "length mo = length (recv_records ?sst p)"
      using mo(1) by (metis length_upt mset_eq_length minus_nat.diff_0)
    have "set mo = set [0..<length (recv_records ?sst p)]" using mo(1) by (rule mset_eq_setD)
    then have bound: "\<forall>j \<in> set mo. j < length (recv_records ?sst p)" by simp
    have cons: "record_consistent r" if "r \<in> set (recv_records ?sst p)" for r
    proof -
      from recv_records_dest[OF that] obtain s i where
        si: "s < length ?sst" "i < ps_n_particles (?sst ! s)" "r = particle_record (?sst ! s) i"
        by blast
      then have "st ! s \<in> set st" by simp
      from local_sort_consistent[OF lib sw[OF this], of i] si show ?thesis by simp
    qed
    have "\<forall>i < ps_n_particles (st' ! p). record_consistent (particle_record (st' ! p) i)"
    proof (intro allI impI)
      fix i assume i: "i < ps_n_particles (st' ! p)"
      then have "particle_record (st' ! p) i = records (st' ! p) ! i" by (simp add: records_def)
      also have "\<dots> = recv_records ?sst p ! (mo ! i)" using i lm mo(4) by (simp add: mo(2))
      finally show "record_consistent (particle_record (st' ! p) i)"
        using cons bound i lm mo(4) by simp
    qed
    then have "computeSquareRadius (st' ! p) = st' ! p" using mo(3) by (intro consistent_imp_fixed)
    moreover have "mset (records (st' ! p)) = mset (recv_records ?sst p)"
      using mset_map_nth_perm[OF mo(1)] by (simp add: mo(2))
    ultimately show ?thesis by simp
  qed
  have fixed: "map computeSquareRadius st' = st'"
    using res st'(2) by (intro nth_equalityI) simp_all
  have "mset (concat (map records st')) = (\<Sum>p \<in> {..<length (map records st')}. mset (map records st' ! p))"
    by (rule mset_concat_nth)
  also have "\<dots> = (\<Sum>p \<in> {..<length ?sst}. mset (recv_records ?sst p))"
    using res st'(2) by (intro sum.cong) simp_all
  also have "\<dots> = mset (concat (map records ?sst))" by (rule recv_records_all)
  also have "\<dots> = (\<Sum>s \<in> {..<length (map records ?sst)}. mset (map records ?sst ! s))"
    by (rule mset_concat_nth)
  also have "\<dots> = (\<Sum>s \<in> {..<length (map (\<lambda>ps. records (computeSquareRadius ps)) st)}.
                      mset (map (\<lambda>ps. records (computeSquareRadius ps)) st ! s))"
  proof (rule sum.cong)
    fix s assume "s \<in> {..<length (map (\<lambda>ps. records (computeSquareRadius ps)) st)}"
    then have s: "s < length st" by simp
    then have "st ! s \<in> set st" by simp
    from local_sort_records[OF lib sw[OF this]] s
    show "mset (map records ?sst ! s) = mset (map (\<lambda>ps. records (computeSquareRadius ps)) st ! s)"
      by simp
  qed simp
  also have "\<dots> = mset (all_records st)"
    unfolding all_records_def by (rule mset_concat_nth[symmetric])
  finally have rec: "mset (concat (map records st')) = mset (all_records st)" .
  have "all_records st' = concat (map records (map computeSquareRadius st'))"
    by (simp add: all_records_def comp_def)
  then have "mset (all_records st') = mset (all_records st)" by (simp only: fixed rec)
  then show ?thesis using st'(1) fixed rec by blast
qed

section \<open>The redistributor: sortedness and conservation\<close>

lemma S2_init_wf: "shells_wf S2_init"
  by (simp add: S2_init_def shells_wf_def shell_at_wf)

text \<open>
  C2. For every library that meets the standard's contract and every configuration of shells
  whose vectors have \<open>n_particles\<close> elements, \<open>sortParticlesParallel\<close> returns on every rank,
  and afterwards the \<open>r2\<close> array of every rank is non-decreasing (I1), for any two ranks
  \<open>a < b\<close> every \<open>r2\<close> on \<open>a\<close> is at most every \<open>r2\<close> on \<open>b\<close> (I2), and the concatenation of the
  shells in rank order is sorted.
\<close>

theorem sortParticlesParallel_globally_sorted:
  assumes "stdlib_ok lib" and "shells_wf st"
  shows "\<exists>st'. sortParticlesParallel lib st = Some st' \<and> length st' = length st \<and>
               shells_wf st' \<and> I1 st' \<and> I2 st' \<and> sorted (concat (map ps_r2 st'))"
proof -
  from sort_sorted[OF assms] obtain st' where
    st': "sortParticlesParallel lib st = Some st'" "length st' = length st"
         "shells_wf st'" "I1 st'" "I2 st'" by blast
  have "sorted (concat (map ps_r2 st'))"
  proof (rule sorted_concat)
    show "\<forall>xs \<in> set (map ps_r2 st'). sorted xs" using st'(4) by (simp add: I1_def)
    show "\<forall>b < length (map ps_r2 st'). \<forall>a < b.
            \<forall>v \<in> set (map ps_r2 st' ! a). \<forall>w \<in> set (map ps_r2 st' ! b). v \<le> w"
      using st'(5) by (simp add: I2_def)
  qed
  then show ?thesis using st' by blast
qed

theorem sortParticlesParallel_globally_sorted_witness:
  "stdlib_ok ref_lib \<and> shells_wf S2_init \<and>
   (\<exists>st'. sortParticlesParallel ref_lib S2_init = Some st' \<and> length st' = length S2_init \<and>
          shells_wf st' \<and> I1 st' \<and> I2 st' \<and> sorted (concat (map ps_r2 st')))"
  using sortParticlesParallel_globally_sorted [OF ref_lib_ok S2_init_wf] ref_lib_ok S2_init_wf
  by simp

text \<open>
  C9. \<open>sortParticlesParallel\<close> preserves the global multiset of particle records: the
  9-tuples \<open>(x, y, z, vx, vy, vz, q, Er, r2)\<close> of all ranks, with \<open>r2\<close> recomputed from the
  position, are after the call a permutation of those before the call. After the call the
  stored \<open>r2\<close> of every particle is the recomputed one, so the stored records are that
  permutation too.
\<close>

theorem sortParticlesParallel_preserves_records:
  assumes "stdlib_ok lib" and "shells_wf st"
  shows "\<exists>st'. sortParticlesParallel lib st = Some st' \<and>
               mset (all_records st') = mset (all_records st) \<and>
               map computeSquareRadius st' = st' \<and>
               mset (concat (map records st')) = mset (all_records st)"
  using sort_conserves[OF assms] .

theorem sortParticlesParallel_preserves_records_witness:
  "stdlib_ok ref_lib \<and> shells_wf S2_init \<and>
   (\<exists>st'. sortParticlesParallel ref_lib S2_init = Some st' \<and>
          mset (all_records st') = mset (all_records S2_init) \<and>
          map computeSquareRadius st' = st' \<and>
          mset (concat (map records st')) = mset (all_records S2_init))"
  using sortParticlesParallel_preserves_records [OF ref_lib_ok S2_init_wf] ref_lib_ok S2_init_wf
  by simp

section \<open>Where the particles go\<close>

text \<open>A particle at the global minimum of \<open>r2\<close> is sent to rank 0: every splitter is above it.\<close>

lemma dest_min:
  assumes "ps_r2 ps ! i \<le> r2_min_global sst"
  shows "dest_of (splitters_of sst) ps i = 0"
proof -
  have "\<not> e < ps_r2 ps ! i" if "e \<in> set (splitters_of sst)" for e
    using splitters_above_min[OF that] assms by simp
  then have "takeWhile (\<lambda>e. e < ps_r2 ps ! i) (splitters_of sst) = []"
    by (cases "splitters_of sst") auto
  then show ?thesis by (simp add: dest_of_def lower_bound_def)
qed

lemma Allreduce_MIN_eq: "contrib \<noteq> [] \<Longrightarrow> MPI_Allreduce_MIN contrib = Min (set contrib)"
  by (cases contrib) (simp_all add: MPI_Allreduce_MIN_def Min.set_eq_fold[symmetric] del: Min_insert)

lemma Allreduce_MAX_eq: "contrib \<noteq> [] \<Longrightarrow> MPI_Allreduce_MAX contrib = Max (set contrib)"
  by (cases contrib) (simp_all add: MPI_Allreduce_MAX_def Max.set_eq_fold[symmetric] del: Max_insert)

text \<open>The number of particles on rank \<open>p\<close> after the call.\<close>

lemma length_recv_records:
  "length (recv_records sst p)
     = (\<Sum>s \<leftarrow> [0..<length sst]. length (bucket_of (splitters_of sst) (sst ! s) p))"
  by (simp add: recv_records_def recv_chunks_def length_concat comp_def)

lemma sort_multi_counts:
  assumes lib: "stdlib_ok lib" and wf: "shells_wf st" and m: "length st \<noteq> 1"
  shows "map_option (map ps_n_particles) (sortParticlesParallel lib st)
         = Some (map (\<lambda>p. length (recv_records (map (local_sort lib) st) p)) [0..<length st])"
proof -
  let ?sst = "map (local_sort lib) st"
  from sort_multi[OF lib wf m] obtain st' where
    st': "sortParticlesParallel lib st = Some st'" "length st' = length st"
         "\<forall>p < length st. exchange_rank lib ?sst p = Some (st' ! p)" by blast
  have "ps_n_particles (st' ! p) = length (recv_records ?sst p)" if p: "p < length st" for p
  proof -
    have p': "p < length ?sst" using p by simp
    from exchange_rank_result[OF lib p' sorted_shells[OF lib wf]] st'(3) p
    show ?thesis by auto
  qed
  then have "map ps_n_particles st' = map (\<lambda>p. length (recv_records ?sst p)) [0..<length st]"
    using st'(2) by (intro nth_equalityI) simp_all
  then show ?thesis by (simp add: st'(1))
qed

text \<open>
  When all particles are at one radius \<open>v\<close> (a finite \<open>double\<close>) and there is more than one
  rank, the whole population ends on rank 0.
\<close>

lemma local_sort_r2_set:
  assumes "stdlib_ok lib" "ps_wf ps"
  shows "set (ps_r2 (local_sort lib ps)) = r2_of ps ` {..<ps_n_particles ps}"
proof -
  note ls = local_sort_eq[OF assms]
  let ?ps1 = "computeSquareRadius ps"
  let ?ix = "std_sort lib (\<lambda>a b. ps_r2 ?ps1 ! a < ps_r2 ?ps1 ! b) [0..<ps_n_particles ps]"
  have "set ?ix = set [0..<ps_n_particles ps]" by (rule mset_eq_setD[OF ls(2)])
  then have s: "set ?ix = {..<ps_n_particles ps}"
    by (simp only: set_upt atLeast0LessThan)
  have r: "ps_r2 (local_sort lib ps) = map ((!) (ps_r2 ?ps1)) ?ix"
    by (simp add: ls(1))
  have "(!) (ps_r2 ?ps1) ` {..<ps_n_particles ps} = r2_of ps ` {..<ps_n_particles ps}"
    by (rule image_cong) (simp_all add: computeSquareRadius_eq[OF assms(2)])
  then show ?thesis by (simp only: r set_map s)
qed

lemma sum_list_pos_ex: "0 < sum_list (map f xs) \<Longrightarrow> \<exists>x \<in> set xs. 0 < (f x :: nat)"
  by (induction xs) auto

lemma all_equal_bucket:
  assumes lib: "stdlib_ok lib" and wf: "shells_wf st"
    and eq: "\<forall>ps \<in> set st. \<forall>i < ps_n_particles ps. r2_of ps i = v"
    and fin: "v \<le> DBL_MAX" and pos: "0 < sum_list (map ps_n_particles st)"
    and s: "s < length st"
  shows "bucket_of (splitters_of (map (local_sort lib) st)) (map (local_sort lib) st ! s) p
         = (if p = 0 then [0..<ps_n_particles (st ! s)] else [])"
proof -
  let ?sst = "map (local_sort lib) st"
  let ?m = "length st"
  have ne: "st \<noteq> []" using pos by auto
  have sw: "ps_wf ps" if "ps \<in> set st" for ps
    using wf that by (simp add: shells_wf_def list_all_iff)
  have r2v: "ps_r2 (?sst ! s) ! i = v" if s: "s < ?m" and i: "i < ps_n_particles (?sst ! s)" for s i
  proof -
    have in_st: "st ! s \<in> set st" using s by simp
    have "length (ps_r2 (?sst ! s)) = ps_n_particles (st ! s)"
      using local_sort_wf[OF lib sw[OF in_st]] s by (simp add: ps_wf_def)
    then have "ps_r2 (?sst ! s) ! i \<in> set (ps_r2 (local_sort lib (st ! s)))"
      using s i by simp
    then have "ps_r2 (?sst ! s) ! i \<in> r2_of (st ! s) ` {..<ps_n_particles (st ! s)}"
      by (simp only: local_sort_r2_set[OF lib sw[OF in_st]])
    then show ?thesis using eq in_st by auto
  qed
  have minl: "r2_min_local (?sst ! s) = (if ps_n_particles (st ! s) > 0 then v else DBL_MAX)"
    if s: "s < ?m" for s
    using r2v[OF s, of 0] s by (simp add: r2_min_local_def)
  obtain s0 where s0: "s0 < ?m" "ps_n_particles (st ! s0) > 0"
  proof -
    from sum_list_pos_ex[OF pos]
    obtain ps where "ps \<in> set st" "0 < ps_n_particles ps" by auto
    then obtain s where "s < ?m" "st ! s = ps" by (auto simp: in_set_conv_nth)
    then show ?thesis using that \<open>0 < ps_n_particles ps\<close> by simp
  qed
  have "r2_min_global ?sst = Min (set (map r2_min_local ?sst))"
    unfolding r2_min_global_def using ne by (intro Allreduce_MIN_eq) simp
  also have "\<dots> = v"
  proof (rule Min_eqI)
    show "finite (set (map r2_min_local ?sst))" by simp
    show "v \<le> y" if "y \<in> set (map r2_min_local ?sst)" for y
    proof -
      from that obtain s where "s < ?m" "y = r2_min_local (?sst ! s)"
        by (auto simp: in_set_conv_nth)
      then show ?thesis using minl fin by simp
    qed
    have "r2_min_local (?sst ! s0) \<in> r2_min_local ` set ?sst"
      using s0(1) by (intro imageI nth_mem) simp
    then have "r2_min_local (?sst ! s0) \<in> set (map r2_min_local ?sst)"
      by (simp only: set_map)
    then show "v \<in> set (map r2_min_local ?sst)" using minl[OF s0(1)] s0(2) by simp
  qed
  finally have rmin: "r2_min_global ?sst = v" .
  have dest0: "dest_of (splitters_of ?sst) (?sst ! s) i = 0"
    if "i < ps_n_particles (?sst ! s)" for i
    using r2v[OF s that] rmin by (intro dest_min) simp
  have "filter (\<lambda>i. dest_of (splitters_of ?sst) (?sst ! s) i = p) [0..<ps_n_particles (?sst ! s)]
        = filter (\<lambda>i. 0 = p) [0..<ps_n_particles (?sst ! s)]"
    by (rule filter_cong) (simp_all add: dest0)
  then show ?thesis using s by (simp add: bucket_of_def)
qed

lemma sort_all_equal:
  assumes lib: "stdlib_ok lib" and wf: "shells_wf st" and m: "length st \<noteq> 1"
    and eq: "\<forall>ps \<in> set st. \<forall>i < ps_n_particles ps. r2_of ps i = v"
    and fin: "v \<le> DBL_MAX" and pos: "0 < sum_list (map ps_n_particles st)"
  shows "map_option (map ps_n_particles) (sortParticlesParallel lib st)
         = Some (sum_list (map ps_n_particles st) # replicate (length st - 1) 0)"
proof -
  let ?sst = "map (local_sort lib) st"
  let ?m = "length st"
  have ne: "st \<noteq> []" using pos by auto
  note b0 = all_equal_bucket[OF lib wf eq fin pos]
  have cnt: "length (recv_records ?sst p) = (if p = 0 then sum_list (map ps_n_particles st) else 0)" for p
  proof -
    have "length (recv_records ?sst p)
          = (\<Sum>s \<leftarrow> [0..<?m]. length (bucket_of (splitters_of ?sst) (?sst ! s) p))"
      by (simp add: length_recv_records)
    also have "\<dots> = (\<Sum>s \<leftarrow> [0..<?m]. if p = 0 then ps_n_particles (st ! s) else 0)"
    proof (rule arg_cong[where f = sum_list], rule map_cong)
      fix s assume "s \<in> set [0..<?m]"
      then have "s < ?m" by simp
      from b0[OF this, of p]
      show "length (bucket_of (splitters_of ?sst) (?sst ! s) p)
            = (if p = 0 then ps_n_particles (st ! s) else 0)" by simp
    qed simp
    also have "\<dots> = (if p = 0 then (\<Sum>s \<leftarrow> [0..<?m]. ps_n_particles (st ! s)) else 0)"
      by simp
    also have "map (\<lambda>s. ps_n_particles (st ! s)) [0..<?m] = map ps_n_particles st"
      by (intro nth_equalityI) simp_all
    finally show ?thesis .
  qed
  have "map (\<lambda>p. length (recv_records ?sst p)) [0..<?m]
        = sum_list (map ps_n_particles st) # replicate (?m - 1) 0"
  proof (rule nth_equalityI)
    show "length (map (\<lambda>p. length (recv_records ?sst p)) [0..<?m])
          = length (sum_list (map ps_n_particles st) # replicate (?m - 1) 0)"
      using ne by (cases st) simp_all
  next
    fix p assume "p < length (map (\<lambda>p. length (recv_records ?sst p)) [0..<?m])"
    then have p: "p < ?m" by simp
    show "map (\<lambda>p. length (recv_records ?sst p)) [0..<?m] ! p
          = (sum_list (map ps_n_particles st) # replicate (?m - 1) 0) ! p"
      using p by (cases p) (simp_all add: cnt)
  qed
  then show ?thesis by (simp only: sort_multi_counts[OF lib wf m])
qed

section \<open>The redistributor: load balance\<close>

lemma shell_at_n [simp]: "ps_n_particles (shell_at pts n) = length pts"
  by (simp add: shell_at_def ParticleSystem_ctor_def resize_def)

lemma shell_at_r2_of:
  "i < length pts \<Longrightarrow> r2_of (shell_at pts n) i = (\<lambda>(x, y, z, q). x * x + y * y + z * z) (pts ! i)"
  by (simp add: shell_at_def r2_of_def split: prod.splits)

lemma shell_at_r2 [simp]:
  "ps_r2 (shell_at pts n) = map (\<lambda>(x, y, z, q). x * x + y * y + z * z) pts"
  by (simp add: shell_at_def)

lemma shell_at_all_r2:
  assumes "\<forall>pt \<in> set pts. (\<lambda>(x, y, z, q). x * x + y * y + z * z) pt = v"
  shows "\<forall>i < ps_n_particles (shell_at pts n). r2_of (shell_at pts n) i = v"
  using assms by (simp add: shell_at_r2_of)

lemma one_le_DBL_MAX: "1 \<le> DBL_MAX" and four_le_DBL_MAX: "4 \<le> DBL_MAX"
  by (simp_all add: DBL_MAX_def)

lemma S5_init_wf: "shells_wf S5_init"
  by (simp add: S5_init_def shells_wf_def shell_at_wf)

lemma S5_init_r2: "\<forall>ps \<in> set S5_init. \<forall>i < ps_n_particles ps. r2_of ps i = 1"
  unfolding S5_init_def by (simp only: list.set ball_simps shell_at_all_r2[of _ 1]) (simp add: shell_at_all_r2)


lemma S5_even_wf: "shells_wf S5_even"
  by (simp add: S5_even_def shells_wf_def shell_at_wf)

lemma S5_even_r2: "\<forall>ps \<in> set S5_even. \<forall>i < ps_n_particles ps. r2_of ps i = 1"
  unfolding S5_even_def by (simp add: shell_at_all_r2)



lemma sorted_pair_wf: "shells_wf sorted_pair"
  by (simp add: sorted_pair_def shells_wf_def shell_at_wf)

lemma sorted_pair_r2: "\<forall>ps \<in> set sorted_pair. \<forall>i < ps_n_particles ps. r2_of ps i = 1"
  unfolding sorted_pair_def by (simp add: shell_at_all_r2)

text \<open>
  C3, as the specification states it, fails: with the nine particles of S5 spread 4, 2, 3 over
  the three ranks, the call leaves all nine on rank 0 and none on ranks 1 and 2, not three on
  every rank. All particles fall into bin 0, both splitters lie above \<open>1.0\<close>, and
  \<open>std::lower_bound\<close> sends every particle to destination 0.
\<close>

theorem S5_not_three_each_counterexample:
  "map_option (map ps_n_particles) (sortParticlesParallel ref_lib S5_init) = Some [9, 0, 0] \<and>
   map_option (map ps_n_particles) (sortParticlesParallel ref_lib S5_init) \<noteq> Some [3, 3, 3]"
proof -
  have "map_option (map ps_n_particles) (sortParticlesParallel ref_lib S5_init)
        = Some (sum_list (map ps_n_particles S5_init) # replicate (length S5_init - 1) 0)"
    by (rule sort_all_equal[OF ref_lib_ok S5_init_wf _ S5_init_r2 one_le_DBL_MAX])
       (simp_all add: S5_init_def)
  moreover have "sum_list (map ps_n_particles S5_init) # replicate (length S5_init - 1) 0 = [9, 0, 0]"
    by (simp add: S5_init_def)
  ultimately have r: "map_option (map ps_n_particles) (sortParticlesParallel ref_lib S5_init) = Some [9, 0, 0]"
    by (simp only:)
  have "Some [9, 0, 0] \<noteq> Some [3, 3, 3::nat]" by simp
  then show ?thesis by (simp only: r simp_thms)
qed

text \<open>
  C3, as the code has it: in scenario S5 (three ranks, nine particles in total, every particle
  at \<open>r2 = 1.0\<close>, however they are spread over the ranks), the call returns with all nine
  particles on rank 0 and none on ranks 1 and 2.
\<close>

theorem S5_all_on_rank_0:
  assumes "stdlib_ok lib" and "shells_wf st" and "length st = 3"
    and "sum_list (map ps_n_particles st) = 9"
    and "all_at_radius 1 st"
  shows "map_option (map ps_n_particles) (sortParticlesParallel lib st) = Some [9, 0, 0]"
proof -
  have eq: "\<forall>ps \<in> set st. \<forall>i < ps_n_particles ps. r2_of ps i = 1"
    using assms(5) by (simp add: all_at_radius_def)
  have "map_option (map ps_n_particles) (sortParticlesParallel lib st)
        = Some (sum_list (map ps_n_particles st) # replicate (length st - 1) 0)"
    using assms by (intro sort_all_equal[OF assms(1,2) _ eq one_le_DBL_MAX]) simp_all
  moreover have "sum_list (map ps_n_particles st) # replicate (length st - 1) 0 = [9, 0, 0]"
    by (simp add: assms(3,4) numeral_3_eq_3)
  ultimately show ?thesis by (simp only:)
qed

theorem S5_all_on_rank_0_witness:
  "stdlib_ok ref_lib \<and> shells_wf S5_even \<and> length S5_even = 3 \<and>
   sum_list (map ps_n_particles S5_even) = 9 \<and> all_at_radius 1 S5_even \<and>
   map_option (map ps_n_particles) (sortParticlesParallel ref_lib S5_even) = Some [9, 0, 0]"
proof -
  have h: "length S5_even = 3" "sum_list (map ps_n_particles S5_even) = 9"
    by (simp_all add: S5_even_def)
  have r: "all_at_radius 1 S5_even"
    using S5_even_r2 by (simp add: all_at_radius_def)
  show ?thesis
    using S5_all_on_rank_0 [OF ref_lib_ok S5_even_wf h r] ref_lib_ok S5_even_wf h r
    by simp
qed


text \<open>
  C6, as the specification states it, fails: two ranks holding one particle each, both at
  \<open>r2 = 1.0\<close>, are globally sorted, yet rank 1 sends its particle to rank 0:
  \<open>send_counts[0] = 1\<close> on rank 1.
\<close>

theorem sorted_input_moves_counterexample:
  "shells_wf sorted_pair \<and> I1 sorted_pair \<and> I2 sorted_pair \<and>
   send_counts_of (map (local_sort ref_lib) sorted_pair) ! 1 = [1, 0]"
proof -
  have pos: "0 < sum_list (map ps_n_particles sorted_pair)" by (simp add: sorted_pair_def)
  have l: "length sorted_pair = 2" "(1::nat) < 2" by (simp_all add: sorted_pair_def)
  have b: "bucket_of (splitters_of (map (local_sort ref_lib) sorted_pair))
             (map (local_sort ref_lib) sorted_pair ! 1) p
           = (if p = 0 then [0..<ps_n_particles (sorted_pair ! 1)] else [])" for p
    by (rule all_equal_bucket[OF ref_lib_ok sorted_pair_wf sorted_pair_r2 one_le_DBL_MAX pos])
       (simp add: l)
  have "send_counts_of (map (local_sort ref_lib) sorted_pair) ! 1
        = map (\<lambda>d. length (bucket_of (splitters_of (map (local_sort ref_lib) sorted_pair))
                                (map (local_sort ref_lib) sorted_pair ! 1) d))
              [0..<length (map (local_sort ref_lib) sorted_pair)]"
    by (rule send_counts_row) (simp add: l)
  also have "\<dots> = [1, 0]"
    by (simp only: b length_map l) (simp add: sorted_pair_def numeral_2_eq_2)
  finally have "send_counts_of (map (local_sort ref_lib) sorted_pair) ! 1 = [1, 0]" .
  moreover have "I1 sorted_pair" "I2 sorted_pair"
    by (simp_all add: I1_def I2_def sorted_pair_def numeral_2_eq_2)
  ultimately show ?thesis using sorted_pair_wf by simp
qed

section \<open>The splitters depend on the population only\<close>

lemma bin_of_less: "bin_of mn bw v < NUM_BINS"
  by (simp add: bin_of_def Let_def NUM_BINS_def)

lemma local_hist_fold:
  "fold (\<lambda>i hist. let bin = bin_of mn bw (r2 ! i) in hist[bin := hist ! bin + 1]) [0..<n]
        (replicate NUM_BINS 0)
     = map (\<lambda>b. length (filter (\<lambda>i. bin_of mn bw (r2 ! i) = b) [0..<n])) [0..<NUM_BINS]"
    (is "fold ?f [0..<n] ?z = ?H n")
proof (induction n)
  case 0
  show ?case by (rule nth_equalityI) simp_all
next
  case (Suc n)
  let ?bn = "bin_of mn bw (r2 ! n)"
  have bn: "?bn < NUM_BINS" by (rule bin_of_less)
  have h: "(?H n)[?bn := ?H n ! ?bn + 1] = ?H (Suc n)"
  proof (rule nth_equalityI)
    show "length ((?H n)[?bn := ?H n ! ?bn + 1]) = length (?H (Suc n))" by simp
  next
    fix j assume "j < length ((?H n)[?bn := ?H n ! ?bn + 1])"
    then have j: "j < NUM_BINS" by simp
    show "(?H n)[?bn := ?H n ! ?bn + 1] ! j = ?H (Suc n) ! j"
      using j bn by (cases "j = ?bn") simp_all
  qed
  have "fold ?f [0..<Suc n] ?z = ?f n (fold ?f [0..<n] ?z)" by (rule fold_upt_Suc)
  also have "\<dots> = ?f n (?H n)" by (simp only: Suc)
  also have "\<dots> = (?H n)[?bn := ?H n ! ?bn + 1]" by (simp only: Let_def)
  also have "\<dots> = ?H (Suc n)" by (rule h)
  finally show ?case .
qed

lemma length_filter_nth:
  "length (filter (\<lambda>i. P (xs ! i)) [0..<length xs]) = length (filter P xs)"
proof -
  have "filter P xs = filter P (map ((!) xs) [0..<length xs])" by (simp add: map_nth)
  also have "\<dots> = map ((!) xs) (filter (\<lambda>i. P (xs ! i)) [0..<length xs])"
    by (simp add: filter_map comp_def)
  finally show ?thesis by simp
qed

lemma local_hist_eq:
  assumes "length (ps_r2 ps) = ps_n_particles ps"
  shows "local_hist mn bw ps
         = map (\<lambda>b. length (filter (\<lambda>v. bin_of mn bw v = b) (ps_r2 ps))) [0..<NUM_BINS]"
proof -
  have "local_hist mn bw ps
        = map (\<lambda>b. length (filter (\<lambda>i. bin_of mn bw (ps_r2 ps ! i) = b) [0..<length (ps_r2 ps)]))
              [0..<NUM_BINS]"
    unfolding local_hist_def assms[symmetric] by (rule local_hist_fold)
  also have "\<dots> = map (\<lambda>b. length (filter (\<lambda>v. bin_of mn bw v = b) (ps_r2 ps))) [0..<NUM_BINS]"
    by (rule map_cong[OF refl]) (rule length_filter_nth[of "\<lambda>v. bin_of mn bw v = b" for b])
  finally show ?thesis .
qed

lemma sum_length_filter:
  "(\<Sum>xs \<leftarrow> xss. length (filter P xs)) = length (filter P (concat xss))"
  by (induction xss) simp_all

lemma hist_sum_eq:
  assumes "\<forall>ps \<in> set sh. length (ps_r2 ps) = ps_n_particles ps"
  shows "MPI_Allreduce_SUM_vec NUM_BINS (map (local_hist mn bw) sh)
         = map (\<lambda>b. size (filter_mset (\<lambda>v. bin_of mn bw v = b) (mset (all_r2 sh)))) [0..<NUM_BINS]"
  unfolding MPI_Allreduce_SUM_vec_def
proof (rule map_cong)
  fix b assume "b \<in> set [0..<NUM_BINS]"
  then have b: "b < NUM_BINS" by simp
  have "map (\<lambda>h. h ! b) (map (local_hist mn bw) sh)
        = map (\<lambda>xs. length (filter (\<lambda>v. bin_of mn bw v = b) xs)) (map ps_r2 sh)"
    using assms b by (simp add: local_hist_eq)
  then have "sum_list (map (\<lambda>h. h ! b) (map (local_hist mn bw) sh))
             = length (filter (\<lambda>v. bin_of mn bw v = b) (all_r2 sh))"
    by (simp only: sum_length_filter all_r2_def)
  also have "\<dots> = size (filter_mset (\<lambda>v. bin_of mn bw v = b) (mset (all_r2 sh)))"
    by (simp flip: mset_filter)
  finally show "sum_list (map (\<lambda>h. h ! b) (map (local_hist mn bw) sh))
                = size (filter_mset (\<lambda>v. bin_of mn bw v = b) (mset (all_r2 sh)))" .
qed simp

section \<open>The load of a rank\<close>



































section \<open>The histogram of a population at one radius\<close>






section \<open>A second call moves nothing\<close>

lemma r2_of_nonneg: "0 \<le> r2_of ps i"
  by (simp add: r2_of_def)

lemma zero_le_DBL_MAX: "0 \<le> DBL_MAX"
  by (simp add: DBL_MAX_def)

text \<open>The \<open>r2\<close> values of a shell are entry 8 of its records.\<close>

lemma r2_records:
  assumes "length (ps_r2 ps) = ps_n_particles ps"
  shows "ps_r2 ps = map (\<lambda>r. r ! 8) (records ps)"
proof -
  have "map (\<lambda>r. r ! 8) (records ps) = map ((!) (ps_r2 ps)) [0..<length (ps_r2 ps)]"
    by (simp add: records_def assms comp_def)
  then show ?thesis by (simp only: map_nth)
qed

text \<open>The population after the local sort, as a multiset, is that of the records.\<close>

lemma population_mset:
  assumes lib: "stdlib_ok lib"
  shows "shells_wf sh \<Longrightarrow>
         mset (all_r2 (map (local_sort lib) sh)) = image_mset (\<lambda>r. r ! 8) (mset (all_records sh))"
proof (induction sh)
  case Nil
  show ?case by (simp add: all_r2_def all_records_def)
next
  case (Cons ps sh)
  then have wf: "ps_wf ps" and wfs: "shells_wf sh" by (simp_all add: shells_wf_def)
  have "length (ps_r2 (local_sort lib ps)) = ps_n_particles (local_sort lib ps)"
    using local_sort_wf[OF lib wf] by (simp add: ps_wf_def)
  then have "mset (ps_r2 (local_sort lib ps))
             = image_mset (\<lambda>r. r ! 8) (mset (records (local_sort lib ps)))"
    using r2_records[of "local_sort lib ps"] by (metis mset_map)
  then have "mset (ps_r2 (local_sort lib ps))
             = image_mset (\<lambda>r. r ! 8) (mset (records (computeSquareRadius ps)))"
    by (simp only: local_sort_records[OF lib wf])
  then show ?case using Cons.IH[OF wfs] by (simp add: all_r2_def all_records_def)
qed

lemma population_values:
  assumes lib: "stdlib_ok lib" and wf: "shells_wf sh" and fin: "finite_radii sh"
    and v: "v \<in> set (all_r2 (map (local_sort lib) sh))"
  shows "- DBL_MAX \<le> v \<and> v \<le> DBL_MAX"
proof -
  from v obtain ps where ps: "ps \<in> set sh" "v \<in> set (ps_r2 (local_sort lib ps))"
    by (auto simp: all_r2_def)
  have "ps_wf ps" using wf ps(1) by (simp add: shells_wf_def list_all_iff)
  from ps(2) local_sort_r2_set[OF lib this]
  obtain i where i: "i < ps_n_particles ps" "v = r2_of ps i" by auto
  have "v \<le> DBL_MAX" using fin ps(1) i by (simp add: finite_radii_def)
  moreover have "0 \<le> v" using i(2) by (simp add: r2_of_nonneg)
  ultimately show ?thesis using zero_le_DBL_MAX by linarith
qed

text \<open>
  The global minimum and the raw global maximum depend only on the set of the \<open>r2\<close> values
  (finite \<open>double\<close>s) and on there being a rank.
\<close>

lemma raw_range:
  assumes srt: "\<forall>ps \<in> set sst. sorted (ps_r2 ps) \<and> length (ps_r2 ps) = ps_n_particles ps"
    and v: "v \<in> set (all_r2 sst)"
  shows "r2_min_global sst \<le> v \<and> v \<le> MPI_Allreduce_MAX (map r2_max_local sst)"
proof -
  from v obtain ps where ps: "ps \<in> set sst" "v \<in> set (ps_r2 ps)" by (auto simp: all_r2_def)
  then obtain i where i: "i < length (ps_r2 ps)" "v = ps_r2 ps ! i" by (auto simp: in_set_conv_nth)
  have s: "sorted (ps_r2 ps)" "length (ps_r2 ps) = ps_n_particles ps" using srt ps(1) by simp_all
  have n: "0 < ps_n_particles ps" using i s by simp
  have "ps_r2 ps ! 0 \<le> v" using s(1) i by (simp add: sorted_iff_nth_mono)
  then have lo: "r2_min_local ps \<le> v" using n by (simp add: r2_min_local_def)
  have "v \<le> ps_r2 ps ! (ps_n_particles ps - 1)" using s i by (simp add: sorted_iff_nth_mono)
  then have hi: "v \<le> r2_max_local ps" using n by (simp add: r2_max_local_def)
  have ne: "map r2_min_local sst \<noteq> []" "map r2_max_local sst \<noteq> []" using ps(1) by auto
  have "r2_min_global sst = Min (set (map r2_min_local sst))"
    unfolding r2_min_global_def by (rule Allreduce_MIN_eq[OF ne(1)])
  also have "\<dots> \<le> r2_min_local ps" using ps(1) by (intro Min_le) auto
  finally have 1: "r2_min_global sst \<le> v" using lo by simp
  have "r2_max_local ps \<le> Max (set (map r2_max_local sst))" using ps(1) by (intro Max_ge) auto
  also have "\<dots> = MPI_Allreduce_MAX (map r2_max_local sst)"
    by (rule Allreduce_MAX_eq[OF ne(2), symmetric])
  finally show ?thesis using 1 hi by simp
qed

lemma min_global_le:
  assumes srtA: "\<forall>ps \<in> set A. sorted (ps_r2 ps) \<and> length (ps_r2 ps) = ps_n_particles ps"
    and srtB: "\<forall>ps \<in> set B. sorted (ps_r2 ps) \<and> length (ps_r2 ps) = ps_n_particles ps"
    and sub: "set (all_r2 B) \<subseteq> set (all_r2 A)"
    and fin: "\<forall>v \<in> set (all_r2 A). v \<le> DBL_MAX"
    and ne: "A \<noteq> []" "B \<noteq> []"
  shows "r2_min_global A \<le> r2_min_global B"
proof -
  have neB: "map r2_min_local B \<noteq> []" using ne by simp
  have "r2_min_global B = Min (set (map r2_min_local B))"
    unfolding r2_min_global_def by (rule Allreduce_MIN_eq[OF neB])
  moreover have "Min (set (map r2_min_local B)) \<in> set (map r2_min_local B)"
    using neB by (intro Min_in) simp_all
  ultimately obtain ps where ps: "ps \<in> set B" "r2_min_global B = r2_min_local ps" by auto
  show ?thesis
  proof (cases "0 < ps_n_particles ps")
    case True
    then have "ps_r2 ps ! 0 \<in> set (ps_r2 ps)" using srtB ps(1) by simp
    then have "ps_r2 ps ! 0 \<in> set (all_r2 A)" using sub ps(1) by (auto simp: all_r2_def)
    from raw_range[OF srtA this] show ?thesis using True by (simp add: ps(2) r2_min_local_def)
  next
    case False
    then have b: "r2_min_global B = DBL_MAX" by (simp add: ps(2) r2_min_local_def)
    obtain a where a: "a \<in> set A" using ne(1) by (cases A) auto
    have neA: "map r2_min_local A \<noteq> []" using ne by simp
    have "r2_min_global A = Min (set (map r2_min_local A))"
      unfolding r2_min_global_def by (rule Allreduce_MIN_eq[OF neA])
    also have "\<dots> \<le> r2_min_local a" using a by (intro Min_le) auto
    also have "\<dots> \<le> DBL_MAX"
    proof (cases "0 < ps_n_particles a")
      case True
      then have "ps_r2 a ! 0 \<in> set (ps_r2 a)" using srtA a by simp
      then have "ps_r2 a ! 0 \<in> set (all_r2 A)" using a by (auto simp: all_r2_def)
      then show ?thesis using fin True by (simp add: r2_min_local_def)
    next
      case False
      then show ?thesis by (simp add: r2_min_local_def)
    qed
    finally show ?thesis by (simp add: b)
  qed
qed

lemma max_global_le:
  assumes srtA: "\<forall>ps \<in> set A. sorted (ps_r2 ps) \<and> length (ps_r2 ps) = ps_n_particles ps"
    and srtB: "\<forall>ps \<in> set B. sorted (ps_r2 ps) \<and> length (ps_r2 ps) = ps_n_particles ps"
    and sub: "set (all_r2 B) \<subseteq> set (all_r2 A)"
    and fin: "\<forall>v \<in> set (all_r2 A). - DBL_MAX \<le> v"
    and ne: "A \<noteq> []" "B \<noteq> []"
  shows "MPI_Allreduce_MAX (map r2_max_local B) \<le> MPI_Allreduce_MAX (map r2_max_local A)"
proof -
  have neB: "map r2_max_local B \<noteq> []" using ne by simp
  have mb: "MPI_Allreduce_MAX (map r2_max_local B) = Max (set (map r2_max_local B))"
    by (rule Allreduce_MAX_eq[OF neB])
  moreover have "Max (set (map r2_max_local B)) \<in> set (map r2_max_local B)"
    using neB by (intro Max_in) simp_all
  ultimately obtain ps where ps: "ps \<in> set B"
    "MPI_Allreduce_MAX (map r2_max_local B) = r2_max_local ps" by auto
  show ?thesis
  proof (cases "0 < ps_n_particles ps")
    case True
    then have "ps_r2 ps ! (ps_n_particles ps - 1) \<in> set (ps_r2 ps)" using srtB ps(1) by simp
    then have "ps_r2 ps ! (ps_n_particles ps - 1) \<in> set (all_r2 A)"
      using sub ps(1) by (auto simp: all_r2_def)
    from raw_range[OF srtA this] show ?thesis using True by (simp add: ps(2) r2_max_local_def)
  next
    case False
    then have b: "MPI_Allreduce_MAX (map r2_max_local B) = - DBL_MAX"
      by (simp add: ps(2) r2_max_local_def)
    obtain a where a: "a \<in> set A" using ne(1) by (cases A) auto
    have neA: "map r2_max_local A \<noteq> []" using ne by simp
    have "- DBL_MAX \<le> r2_max_local a"
    proof (cases "0 < ps_n_particles a")
      case True
      then have "ps_r2 a ! (ps_n_particles a - 1) \<in> set (ps_r2 a)" using srtA a by simp
      then have "ps_r2 a ! (ps_n_particles a - 1) \<in> set (all_r2 A)" using a by (auto simp: all_r2_def)
      then show ?thesis using fin True by (simp add: r2_max_local_def)
    next
      case False
      then show ?thesis by (simp add: r2_max_local_def)
    qed
    also have "r2_max_local a \<le> Max (set (map r2_max_local A))" using a by (intro Max_ge) auto
    also have "\<dots> = MPI_Allreduce_MAX (map r2_max_local A)"
      by (rule Allreduce_MAX_eq[OF neA, symmetric])
    finally show ?thesis by (simp add: b)
  qed
qed

text \<open>
  Two lists of sorted shells with the same number of ranks and the same population (finite
  \<open>double\<close>s) get the same splitters.
\<close>

lemma splitters_population:
  assumes srtA: "\<forall>ps \<in> set A. sorted (ps_r2 ps) \<and> length (ps_r2 ps) = ps_n_particles ps"
    and srtB: "\<forall>ps \<in> set B. sorted (ps_r2 ps) \<and> length (ps_r2 ps) = ps_n_particles ps"
    and pop: "mset (all_r2 A) = mset (all_r2 B)"
    and fin: "\<forall>v \<in> set (all_r2 A). - DBL_MAX \<le> v \<and> v \<le> DBL_MAX"
    and len: "length A = length B"
  shows "splitters_of A = splitters_of B"
proof (cases "A = []")
  case True
  then show ?thesis using len by simp
next
  case False
  then have ne: "A \<noteq> []" "B \<noteq> []" using len by auto
  have set_eq: "set (all_r2 A) = set (all_r2 B)" using pop by (rule mset_eq_setD)
  have finA: "\<forall>v \<in> set (all_r2 A). v \<le> DBL_MAX" "\<forall>v \<in> set (all_r2 A). - DBL_MAX \<le> v"
    using fin by simp_all
  have finB: "\<forall>v \<in> set (all_r2 B). v \<le> DBL_MAX" "\<forall>v \<in> set (all_r2 B). - DBL_MAX \<le> v"
    using fin set_eq by simp_all
  have mn: "r2_min_global A = r2_min_global B"
    using min_global_le[OF srtA srtB _ finA(1) ne] min_global_le[OF srtB srtA _ finB(1) ne(2,1)]
      set_eq by simp
  have "MPI_Allreduce_MAX (map r2_max_local A) = MPI_Allreduce_MAX (map r2_max_local B)"
    using max_global_le[OF srtA srtB _ finA(2) ne] max_global_le[OF srtB srtA _ finB(2) ne(2,1)]
      set_eq by simp
  then have mx: "r2_max_global A = r2_max_global B" by (simp add: r2_max_global_def mn)
  have bw: "bin_width A = bin_width B" by (simp add: bin_width_def mn mx)
  have lA: "\<forall>ps \<in> set A. length (ps_r2 ps) = ps_n_particles ps" using srtA by simp
  have lB: "\<forall>ps \<in> set B. length (ps_r2 ps) = ps_n_particles ps" using srtB by simp
  have "global_hist A = global_hist B"
    unfolding global_hist_def hist_sum_eq[OF lA] hist_sum_eq[OF lB] by (simp only: mn bw pop)
  then show ?thesis by (simp add: splitters_of_def mn mx bw len)
qed


text \<open>Every particle a rank holds after the call has that rank as its destination.\<close>

lemma sort_dest:
  assumes lib: "stdlib_ok lib" and wf: "shells_wf st" and m: "length st \<noteq> 1"
    and st': "sortParticlesParallel lib st = Some st'"
    and p: "p < length st" and v: "v \<in> set (ps_r2 (st' ! p))"
  shows "lower_bound (splitters_of (map (local_sort lib) st)) v = p"
proof -
  let ?sst = "map (local_sort lib) st"
  from sort_multi[OF lib wf m] st'
  have ex: "exchange_rank lib ?sst p = Some (st' ! p)" using p by auto
  have p': "p < length ?sst" using p by simp
  from exchange_rank_result[OF lib p' sorted_shells[OF lib wf]] ex
  obtain mo where mo: "mset mo = mset [0..<length (recv_records ?sst p)]"
    "ps_r2 (st' ! p) = map (\<lambda>j. recv_records ?sst p ! j ! 8) mo" by auto
  have "set mo = set [0..<length (recv_records ?sst p)]" using mo(1) by (rule mset_eq_setD)
  then have "\<forall>j \<in> set mo. recv_records ?sst p ! j \<in> set (recv_records ?sst p)" by simp
  then have "\<forall>v \<in> set (ps_r2 (st' ! p)). lower_bound (splitters_of ?sst) v = p"
    using recv_records_dest[of _ ?sst p] by (auto simp: mo(2))
  then show ?thesis using v by simp
qed

text \<open>A shell whose stored \<open>r2\<close> is the recomputed one keeps its \<open>r2\<close> values in the local sort.\<close>

lemma local_sort_set_fixed:
  assumes lib: "stdlib_ok lib" and wf: "ps_wf ps" and fx: "computeSquareRadius ps = ps"
  shows "set (ps_r2 (local_sort lib ps)) = set (ps_r2 ps)"
proof -
  have "ps_r2 (computeSquareRadius ps) = map (r2_of ps) [0..<ps_n_particles ps]"
    by (simp add: computeSquareRadius_eq[OF wf])
  then have "ps_r2 ps = map (r2_of ps) [0..<ps_n_particles ps]" by (simp only: fx)
  then have "set (ps_r2 ps) = r2_of ps ` set [0..<ps_n_particles ps]" by (simp only: set_map)
  then have "set (ps_r2 ps) = r2_of ps ` {..<ps_n_particles ps}"
    by (simp only: set_upt atLeast0LessThan)
  then show ?thesis by (simp only: local_sort_r2_set[OF lib wf])
qed


lemma identity_row:
  "p < m \<Longrightarrow> map (\<lambda>d. if d = p then n else 0) [0..<m] = (replicate m (0::nat))[p := n]"
  by (rule nth_equalityI) (simp_all add: nth_list_update)

text \<open>
  C6, as the code has it. Global sortedness does not fix where the splitters lie, so it does
  not make the call a no-op. What does is that the shells are as a previous call left them:
  called again on its own result (positions unchanged, every \<open>r2\<close> a finite \<open>double\<close>), which is
  globally sorted, \<open>sortParticlesParallel\<close> computes the same splitters from the same
  population, every particle's destination is the rank that holds it, and \<open>send_counts\<close>
  is the identity pattern: \<open>send_counts[rank] = n_local\<close> and \<open>send_counts[d] = 0\<close> for
  every other destination.
\<close>

theorem sortParticlesParallel_second_call_identity:
  assumes "stdlib_ok lib" and "shells_wf st" and "finite_radii st"
  shows "\<exists>st'. sortParticlesParallel lib st = Some st' \<and> I1 st' \<and> I2 st' \<and>
           (\<forall>p < length st'.
              send_counts_of (map (local_sort lib) st') ! p
                = (replicate (length st') 0)[p := ps_n_particles (st' ! p)])"
proof -
  note lib = assms(1) and wf = assms(2) and fin = assms(3)
  let ?sst = "map (local_sort lib) st"
  from sort_sorted[OF lib wf] obtain st' where
    st': "sortParticlesParallel lib st = Some st'" "length st' = length st"
      "shells_wf st'" "I1 st'" "I2 st'" by blast
  let ?sst' = "map (local_sort lib) st'"
  from sort_conserves[OF lib wf] st'(1)
  have cons: "mset (all_records st') = mset (all_records st)" "map computeSquareRadius st' = st'"
    by auto
  have pop: "mset (all_r2 ?sst) = mset (all_r2 ?sst')"
    by (simp only: population_mset[OF lib wf] population_mset[OF lib st'(3)] cons(1))
  have finv: "\<forall>v \<in> set (all_r2 ?sst). - DBL_MAX \<le> v \<and> v \<le> DBL_MAX"
    using population_values[OF lib wf fin] by blast
  have spl: "splitters_of ?sst = splitters_of ?sst'"
    by (rule splitters_population[OF sorted_shells[OF lib wf] sorted_shells[OF lib st'(3)] pop finv])
       (simp add: st'(2))
  have row: "send_counts_of ?sst' ! p = (replicate (length st') 0)[p := ps_n_particles (st' ! p)]"
    if p: "p < length st'" for p
  proof -
    let ?ps = "?sst' ! p"
    have p': "p < length ?sst'" using p by simp
    have wfp: "ps_wf (st' ! p)" using st'(3) p by (simp add: shells_wf_def list_all_length)
    have "map computeSquareRadius st' ! p = st' ! p" by (simp only: cons(2))
    then have fx: "computeSquareRadius (st' ! p) = st' ! p" using p by simp
    have vals: "set (ps_r2 ?ps) = set (ps_r2 (st' ! p))"
      using local_sort_set_fixed[OF lib wfp fx] p by simp
    have lenp: "length (ps_r2 ?ps) = ps_n_particles (st' ! p)"
      using local_sort_wf[OF lib wfp] p by (simp add: ps_wf_def)
    have dest: "lower_bound (splitters_of ?sst') v = p" if v: "v \<in> set (ps_r2 (st' ! p))" for v
    proof (cases "length st = 1")
      case True
      then have "length (splitters_of ?sst') = 0" using st'(2) by (simp add: splitters_length)
      then have "splitters_of ?sst' = []" by simp
      then show ?thesis using p True st'(2) by (simp add: lower_bound_def)
    next
      case False
      from sort_dest[OF lib wf False st'(1) _ v] p st'(2)
      show ?thesis by (simp add: spl)
    qed
    have bucket: "bucket_of (splitters_of ?sst') ?ps d
                  = (if d = p then [0..<ps_n_particles (st' ! p)] else [])" for d
    proof -
      have "filter (\<lambda>i. dest_of (splitters_of ?sst') ?ps i = d) [0..<ps_n_particles (st' ! p)]
            = filter (\<lambda>i. p = d) [0..<ps_n_particles (st' ! p)]"
      proof (rule filter_cong[OF refl])
        fix i assume "i \<in> set [0..<ps_n_particles (st' ! p)]"
        then have "ps_r2 ?ps ! i \<in> set (ps_r2 ?ps)" using lenp by simp
        then have "ps_r2 ?ps ! i \<in> set (ps_r2 (st' ! p))" by (simp only: vals)
        from dest[OF this]
        show "(dest_of (splitters_of ?sst') ?ps i = d) = (p = d)" by (simp add: dest_of_def)
      qed
      then show ?thesis using p by (auto simp: bucket_of_def)
    qed
    have "send_counts_of ?sst' ! p
          = map (\<lambda>d. length (bucket_of (splitters_of ?sst') ?ps d)) [0..<length ?sst']"
      by (rule send_counts_row[OF p'])
    also have "\<dots> = map (\<lambda>d. if d = p then ps_n_particles (st' ! p) else 0) [0..<length st']"
      by (simp add: bucket)
    also have "\<dots> = (replicate (length st') 0)[p := ps_n_particles (st' ! p)]"
      by (rule identity_row[OF p])
    finally show ?thesis .
  qed
  show ?thesis using st'(1,4,5) row by blast
qed

lemma S2_init_finite: "finite_radii S2_init"
  by (simp add: finite_radii_def S2_init_def shell_at_r2_of less_Suc_eq numeral_2_eq_2 DBL_MAX_def)

theorem sortParticlesParallel_second_call_identity_witness:
  "stdlib_ok ref_lib \<and> shells_wf S2_init \<and> finite_radii S2_init \<and>
   (\<exists>st'. sortParticlesParallel ref_lib S2_init = Some st' \<and> I1 st' \<and> I2 st' \<and>
      (\<forall>p < length st'.
         send_counts_of (map (local_sort ref_lib) st') ! p
           = (replicate (length st') 0)[p := ps_n_particles (st' ! p)]))"
  using sortParticlesParallel_second_call_identity [OF ref_lib_ok S2_init_wf S2_init_finite]
    ref_lib_ok S2_init_wf S2_init_finite
  by simp

section \<open>The heap functions of libstdc++ meet the contract\<close>

lemma parent_less: "1 \<le> i \<Longrightarrow> (i - 1) div 2 < (i::nat)"
  by (simp add: less_eq_div_iff_mult_less_eq)

lemma hole_fill:
  assumes cmp: "\<And>a b. cmp a b \<longleftrightarrow> key b < key a"
    and inv: "hole_inv key len first hole" and h: "hole < len" "len \<le> length first"
    and up: "1 \<le> hole \<longrightarrow> key (first ! ((hole - 1) div 2)) \<le> key v"
    and dn: "above_children key len first hole v"
  shows "heap_upto cmp len (first[hole := v])"
  unfolding heap_upto_def
proof (intro allI impI)
  fix i assume i: "1 \<le> i \<and> i < len"
  let ?p = "(i - 1) div 2"
  have pl: "?p < i" using i parent_less by simp
  have "key ((first[hole := v]) ! ?p) \<le> key ((first[hole := v]) ! i)"
  proof (cases "i = hole")
    case True
    then have "?p \<noteq> hole" using pl by simp
    then show ?thesis using True up i h by simp
  next
    case False
    show ?thesis
    proof (cases "?p = hole")
      case True
      then show ?thesis using dn i h False by (simp add: above_children_def)
    next
      case np: False
      then show ?thesis using inv i False by (simp add: hole_inv_def)
    qed
  qed
  then show "\<not> cmp ((first[hole := v]) ! ?p) ((first[hole := v]) ! i)" by (simp add: cmp)
qed

lemma hole_up:
  assumes inv: "hole_inv key len first hole" and h: "1 \<le> hole" "hole < len" "len \<le> length first"
    and lt: "key v < key (first ! ((hole - 1) div 2))"
    and dn: "above_children key len first hole v"
  shows "hole_inv key len (first[hole := first ! ((hole - 1) div 2)]) ((hole - 1) div 2)"
    and "above_children key len (first[hole := first ! ((hole - 1) div 2)]) ((hole - 1) div 2) v"
proof -
  let ?p = "(hole - 1) div 2"
  let ?f = "first[hole := first ! ?p]"
  have ph: "?p < hole" using h parent_less by simp
  have e1: "\<And>i. 1 \<le> i \<Longrightarrow> i < len \<Longrightarrow> i \<noteq> hole \<Longrightarrow> (i - 1) div 2 \<noteq> hole
              \<Longrightarrow> key (first ! ((i - 1) div 2)) \<le> key (first ! i)"
    and e2: "\<And>j. 1 \<le> j \<Longrightarrow> j < len \<Longrightarrow> (j - 1) div 2 = hole \<Longrightarrow> key (first ! ?p) \<le> key (first ! j)"
    using inv h(1) by (simp_all add: hole_inv_def)
  show "hole_inv key len ?f ?p"
    unfolding hole_inv_def
  proof (intro conjI allI impI)
    fix i assume i: "1 \<le> i \<and> i < len \<and> i \<noteq> ?p \<and> (i - 1) div 2 \<noteq> ?p"
    then have ih: "i \<noteq> hole" by auto
    show "key (?f ! ((i - 1) div 2)) \<le> key (?f ! i)"
    proof (cases "(i - 1) div 2 = hole")
      case True
      then show ?thesis using e2[of i] i ih h by simp
    next
      case False
      then show ?thesis using e1[of i] i ih by simp
    qed
  next
    fix j assume p1: "1 \<le> ?p" and j: "1 \<le> j \<and> j < len \<and> (j - 1) div 2 = ?p"
    have pp: "(?p - 1) div 2 < ?p" using p1 parent_less by simp
    then have pph: "(?p - 1) div 2 \<noteq> hole" using ph by simp
    have pe: "key (first ! ((?p - 1) div 2)) \<le> key (first ! ?p)"
      using e1[of ?p] p1 ph h pp by simp
    show "key (?f ! ((?p - 1) div 2)) \<le> key (?f ! j)"
    proof (cases "j = hole")
      case True
      then show ?thesis using pe pph h by simp
    next
      case False
      have "key (first ! ?p) \<le> key (first ! j)" using e1[of j] j False ph by simp
      then show ?thesis using pe pph False by simp
    qed
  qed
  show "above_children key len ?f ?p v"
    unfolding above_children_def
  proof (intro allI impI)
    fix j assume j: "1 \<le> j \<and> j < len \<and> (j - 1) div 2 = ?p"
    show "key v \<le> key (?f ! j)"
    proof (cases "j = hole")
      case True
      then show ?thesis using lt h by simp
    next
      case False
      have "key (first ! ?p) \<le> key (first ! j)" using e1[of j] j False ph by simp
      then show ?thesis using lt False by simp
    qed
  qed
qed

lemma hole_down:
  assumes inv: "hole_inv key len first hole" and h: "hole < len" "len \<le> length first"
    and s: "1 \<le> s" "s < len" "(s - 1) div 2 = hole"
    and mn: "\<And>j. 1 \<le> j \<Longrightarrow> j < len \<Longrightarrow> (j - 1) div 2 = hole \<Longrightarrow> key (first ! s) \<le> key (first ! j)"
  shows "hole_inv key len (first[hole := first ! s]) s"
proof -
  let ?f = "first[hole := first ! s]"
  have sh: "hole < s" using s parent_less[of s] by simp
  have e1: "\<And>i. 1 \<le> i \<Longrightarrow> i < len \<Longrightarrow> i \<noteq> hole \<Longrightarrow> (i - 1) div 2 \<noteq> hole
              \<Longrightarrow> key (first ! ((i - 1) div 2)) \<le> key (first ! i)"
    and e2: "\<And>j. 1 \<le> hole \<Longrightarrow> 1 \<le> j \<Longrightarrow> j < len \<Longrightarrow> (j - 1) div 2 = hole
              \<Longrightarrow> key (first ! ((hole - 1) div 2)) \<le> key (first ! j)"
    using inv by (simp_all add: hole_inv_def)
  show ?thesis
    unfolding hole_inv_def
  proof (intro conjI allI impI)
    fix i assume i: "1 \<le> i \<and> i < len \<and> i \<noteq> s \<and> (i - 1) div 2 \<noteq> s"
    let ?p = "(i - 1) div 2"
    have pl: "?p < i" using i parent_less by simp
    show "key (?f ! ?p) \<le> key (?f ! i)"
    proof (cases "i = hole")
      case True
      then have "?p \<noteq> hole" using pl by simp
      moreover have "key (first ! ((hole - 1) div 2)) \<le> key (first ! s)"
        using e2[of s] s i True by simp
      ultimately show ?thesis using True h by simp
    next
      case False
      show ?thesis
      proof (cases "?p = hole")
        case True
        then show ?thesis using mn[of i] i False h by simp
      next
        case np: False
        then show ?thesis using e1[of i] i False by simp
      qed
    qed
  next
    fix j assume "1 \<le> s" and j: "1 \<le> j \<and> j < len \<and> (j - 1) div 2 = s"
    have jh: "j \<noteq> hole" using j sh parent_less[of j] by linarith
    have "key (first ! s) \<le> key (first ! j)" using e1[of j] j jh sh by simp
    then show "key (?f ! ((s - 1) div 2)) \<le> key (?f ! j)" using s jh h by simp
  qed
qed


declare libstdcxx_push_heap_aux.simps [simp del]
declare libstdcxx_adjust_loop.simps [simp del]

lemma mset_move:
  assumes "i < length xs" "j < length xs" "i \<noteq> j"
  shows "mset (xs[i := xs ! j, j := v]) = mset (xs[i := v])"
proof -
  let ?ys = "xs[i := v]"
  have "mset (?ys[i := ?ys ! j, j := ?ys ! i]) = mset ?ys"
    using assms by (intro mset_swap) simp_all
  moreover have "?ys[i := ?ys ! j, j := ?ys ! i] = xs[i := xs ! j, j := v]"
    using assms by simp
  ultimately show ?thesis by simp
qed

text \<open>\<open>__push_heap\<close> from a hole: the result is a heap and holds the value in place of the hole.\<close>

lemma push_heap_aux_correct:
  assumes cmp: "\<And>a b. cmp a b \<longleftrightarrow> key b < key a"
  shows "hole < len \<Longrightarrow> len \<le> length first \<Longrightarrow> hole_inv key len first hole \<Longrightarrow>
         above_children key len first hole v \<Longrightarrow>
         heap_upto cmp len (libstdcxx_push_heap_aux cmp first hole 0 v) \<and>
         mset (libstdcxx_push_heap_aux cmp first hole 0 v) = mset (first[hole := v]) \<and>
         length (libstdcxx_push_heap_aux cmp first hole 0 v) = length first \<and>
         (\<forall>i. len \<le> i \<longrightarrow> libstdcxx_push_heap_aux cmp first hole 0 v ! i = first ! i)"
proof (induction hole arbitrary: first rule: less_induct)
  case (less hole)
  let ?p = "(hole - 1) div 2"
  show ?case
  proof (cases "0 < hole \<and> cmp (first ! ?p) v")
    case True
    let ?f = "first[hole := first ! ?p]"
    have eq: "libstdcxx_push_heap_aux cmp first hole 0 v = libstdcxx_push_heap_aux cmp ?f ?p 0 v"
      using True by (subst libstdcxx_push_heap_aux.simps) (simp add: Let_def)
    have h1: "1 \<le> hole" using True by simp
    have ph: "?p < hole" using h1 parent_less by simp
    have lt: "key v < key (first ! ?p)" using True by (simp add: cmp)
    note up = hole_up[OF less.prems(3) h1 less.prems(1,2) lt less.prems(4)]
    have pl: "?p < len" using ph less.prems(1) by simp
    have lf: "len \<le> length ?f" using less.prems(2) by simp
    from less.IH[OF ph pl lf up]
    have r: "heap_upto cmp len (libstdcxx_push_heap_aux cmp ?f ?p 0 v)"
      "mset (libstdcxx_push_heap_aux cmp ?f ?p 0 v) = mset (?f[?p := v])"
      "length (libstdcxx_push_heap_aux cmp ?f ?p 0 v) = length ?f"
      "\<forall>i. len \<le> i \<longrightarrow> libstdcxx_push_heap_aux cmp ?f ?p 0 v ! i = ?f ! i"
      by simp_all
    have "mset (?f[?p := v]) = mset (first[hole := v])"
      using less.prems(1,2) ph by (intro mset_move) simp_all
    moreover have "\<forall>i. len \<le> i \<longrightarrow> ?f ! i = first ! i" using less.prems(1) by simp
    ultimately show ?thesis using r by (simp add: eq)
  next
    case False
    have eq: "libstdcxx_push_heap_aux cmp first hole 0 v = first[hole := v]"
      using False by (subst libstdcxx_push_heap_aux.simps) (auto simp: Let_def)
    have up: "1 \<le> hole \<longrightarrow> key (first ! ?p) \<le> key v" using False by (auto simp: cmp)
    have "heap_upto cmp len (first[hole := v])"
      by (rule hole_fill[OF cmp less.prems(3,1,2) up less.prems(4)])
    then show ?thesis using less.prems(1) by (simp add: eq)
  qed
qed

lemma is_heap_upto: "is_heap cmp c \<longleftrightarrow> heap_upto cmp (length c) c"
  by (auto simp: is_heap_def heap_upto_def)

lemma heap_upto_butlast: "heap_upto cmp (length c - 1) c \<longleftrightarrow> is_heap cmp (butlast c)"
proof -
  have "butlast c ! ((i - 1) div 2) = c ! ((i - 1) div 2) \<and> butlast c ! i = c ! i"
    if "1 \<le> i" "i < length c - 1" for i
  proof -
    have "(i - 1) div 2 < length c - 1" using parent_less[OF that(1)] that(2) by simp
    then show ?thesis using that(2) by (simp add: nth_butlast)
  qed
  then show ?thesis by (auto simp: is_heap_def heap_upto_def)
qed

text \<open>\<open>std::push_heap\<close> of libstdc++ meets the contract.\<close>

lemma libstdcxx_push_heap_ok:
  assumes cmp: "\<And>a b. cmp a b \<longleftrightarrow> key b < (key a :: real)"
    and ne: "c \<noteq> []" and heap: "is_heap cmp (butlast c)"
  shows "mset (libstdcxx_push_heap cmp c) = mset c" and "is_heap cmp (libstdcxx_push_heap cmp c)"
proof -
  let ?n = "length c"
  let ?h = "?n - 1"
  have n: "0 < ?n" using ne by simp
  have hb: "heap_upto cmp ?h c" using heap by (simp only: heap_upto_butlast)
  have nochild: "\<not> (1 \<le> j \<and> j < ?n \<and> (j - 1) div 2 = ?h)" for j
  proof
    assume j: "1 \<le> j \<and> j < ?n \<and> (j - 1) div 2 = ?h"
    then have "(j - 1) div 2 < j" using parent_less[of j] by simp
    then have "?h < j" using j by simp
    moreover have "j < ?n" using j by simp
    ultimately show False by linarith
  qed
  have inv: "hole_inv key ?n c ?h"
    unfolding hole_inv_def
  proof (intro conjI allI impI)
    fix i assume i: "1 \<le> i \<and> i < ?n \<and> i \<noteq> ?h \<and> (i - 1) div 2 \<noteq> ?h"
    then have "i < ?h" by linarith
    then have "\<not> cmp (c ! ((i - 1) div 2)) (c ! i)" using hb i by (simp add: heap_upto_def)
    then show "key (c ! ((i - 1) div 2)) \<le> key (c ! i)" by (simp add: cmp)
  next
    fix j assume "1 \<le> ?h" "1 \<le> j \<and> j < ?n \<and> (j - 1) div 2 = ?h"
    then show "key (c ! ((?h - 1) div 2)) \<le> key (c ! j)" using nochild by blast
  qed
  have ab: "above_children key ?n c ?h (c ! ?h)"
    unfolding above_children_def using nochild by blast
  have hl: "?h < ?n" using n by simp
  from push_heap_aux_correct[of cmp key ?h ?n c "c ! ?h", OF cmp hl order_refl inv ab]
  have "heap_upto cmp ?n (libstdcxx_push_heap cmp c)"
    "mset (libstdcxx_push_heap cmp c) = mset (c[?h := c ! ?h])"
    "length (libstdcxx_push_heap cmp c) = ?n"
    by (simp_all add: libstdcxx_push_heap_def)
  then show "mset (libstdcxx_push_heap cmp c) = mset c" "is_heap cmp (libstdcxx_push_heap cmp c)"
    by (simp_all add: is_heap_upto)
qed


lemma children_of:
  "1 \<le> j \<Longrightarrow> (j - 1) div 2 = h \<longleftrightarrow> j = 2 * h + 1 \<or> j = 2 * h + 2" for j h :: nat
  by (cases j) auto

text \<open>The loop of \<open>__adjust_heap\<close>: the hole moves down along the children with the smaller key.\<close>

lemma adjust_loop_correct:
  assumes cmp: "\<And>a b. cmp a b \<longleftrightarrow> key b < key a"
  shows "h < len \<Longrightarrow> len \<le> length first \<Longrightarrow> hole_inv key len first h \<Longrightarrow>
         (case libstdcxx_adjust_loop cmp first h h len of (first', h', sc) \<Rightarrow>
            sc = h' \<and> h' < len \<and> \<not> h' < (len - 1) div 2 \<and> hole_inv key len first' h' \<and>
            length first' = length first \<and>
            (\<forall>v. mset (first'[h' := v]) = mset (first[h := v])) \<and>
            (\<forall>i. len \<le> i \<longrightarrow> first' ! i = first ! i))"
proof (induction "len - h" arbitrary: first h rule: less_induct)
  case less
  show ?case
  proof (cases "h < (len - 1) div 2")
    case False
    have "libstdcxx_adjust_loop cmp first h h len = (first, h, h)"
      using False by (subst libstdcxx_adjust_loop.simps) simp
    then show ?thesis using less.prems False by simp
  next
    case True
    let ?r = "2 * (h + 1)"
    define s where "s = (if cmp (first ! ?r) (first ! (?r - 1)) then ?r - 1 else ?r)"
    define f where "f = first[h := first ! s]"
    have eq: "libstdcxx_adjust_loop cmp first h h len = libstdcxx_adjust_loop cmp f s s len"
      using True by (subst libstdcxx_adjust_loop.simps) (simp add: Let_def s_def f_def)
    have r: "?r < len" using True by presburger
    have s: "1 \<le> s" "s < len" "(s - 1) div 2 = h" "h < s" using r by (auto simp: s_def)
    have mn: "key (first ! s) \<le> key (first ! j)" if "1 \<le> j" "j < len" "(j - 1) div 2 = h" for j
    proof -
      have "j = 2 * h + 1 \<or> j = 2 * h + 2" using that children_of[of j h] by simp
      then show ?thesis by (auto simp: cmp s_def)
    qed
    have inv': "hole_inv key len f s"
      unfolding f_def by (rule hole_down[OF less.prems(3,1,2) s(1,2,3) mn])
    have m: "len - s < len - h" using s(2,4) by linarith
    have lf: "len \<le> length f" using less.prems(2) by (simp add: f_def)
    from less.hyps[OF m s(2) lf inv']
    obtain first' h' sc where res: "libstdcxx_adjust_loop cmp f s s len = (first', h', sc)"
      and p: "sc = h'" "h' < len" "\<not> h' < (len - 1) div 2" "hole_inv key len first' h'"
        "length first' = length f" "\<forall>v. mset (first'[h' := v]) = mset (f[s := v])"
        "\<forall>i. len \<le> i \<longrightarrow> first' ! i = f ! i"
      by (cases "libstdcxx_adjust_loop cmp f s s len") auto
    have "mset (f[s := v]) = mset (first[h := v])" for v
      unfolding f_def using less.prems(1,2) s(2,4) by (intro mset_move) simp_all
    moreover have "\<forall>i. len \<le> i \<longrightarrow> f ! i = first ! i" using less.prems(1) by (simp add: f_def)
    moreover have "length f = length first" by (simp add: f_def)
    ultimately show ?thesis using p by (simp add: eq res)
  qed
qed

text \<open>\<open>__adjust_heap\<close> from the top: the first \<open>len\<close> elements become a heap that holds the value.\<close>

lemma adjust_heap_correct:
  assumes cmp: "\<And>a b. cmp a b \<longleftrightarrow> key b < key a"
    and len: "0 < len" "len \<le> length first" and inv: "hole_inv key len first 0"
  shows "heap_upto cmp len (libstdcxx_adjust_heap cmp first 0 len v) \<and>
         mset (libstdcxx_adjust_heap cmp first 0 len v) = mset (first[0 := v]) \<and>
         length (libstdcxx_adjust_heap cmp first 0 len v) = length first \<and>
         (\<forall>i. len \<le> i \<longrightarrow> libstdcxx_adjust_heap cmp first 0 len v ! i = first ! i)"
proof -
  from adjust_loop_correct[of cmp key 0 len first, OF cmp len inv]
  obtain f1 h1 where res: "libstdcxx_adjust_loop cmp first 0 0 len = (f1, h1, h1)"
    and p: "h1 < len" "\<not> h1 < (len - 1) div 2" "hole_inv key len f1 h1"
      "length f1 = length first" "\<forall>v. mset (f1[h1 := v]) = mset (first[0 := v])"
      "\<forall>i. len \<le> i \<longrightarrow> f1 ! i = first ! i"
    by (cases "libstdcxx_adjust_loop cmp first 0 0 len") auto
  let ?special = "even len \<and> 2 \<le> len \<and> h1 = (len - 2) div 2"
  let ?l = "2 * (h1 + 1) - 1"
  let ?f2 = "if ?special then f1[h1 := f1 ! ?l] else f1"
  let ?h2 = "if ?special then ?l else h1"
  have eq: "libstdcxx_adjust_heap cmp first 0 len v = libstdcxx_push_heap_aux cmp ?f2 ?h2 0 v"
    by (simp add: libstdcxx_adjust_heap_def res Let_def)
  have lf1: "len \<le> length f1" using len p(4) by simp
  have st: "?h2 < len \<and> hole_inv key len ?f2 ?h2 \<and> above_children key len ?f2 ?h2 v \<and>
            length ?f2 = length first \<and> mset (?f2[?h2 := v]) = mset (first[0 := v]) \<and>
            (\<forall>i. len \<le> i \<longrightarrow> ?f2 ! i = first ! i)"
  proof (cases ?special)
    case True
    then have l: "?l = len - 1" "1 \<le> ?l" "?l < len" "(?l - 1) div 2 = h1" "h1 < ?l" by auto
    have mn: "key (f1 ! ?l) \<le> key (f1 ! j)" if "1 \<le> j" "j < len" "(j - 1) div 2 = h1" for j
    proof -
      have "j = 2 * h1 + 1 \<or> j = 2 * h1 + 2" using that children_of[of j h1] by simp
      then have "j = ?l" using that(2) l(1) by auto
      then show ?thesis by simp
    qed
    have inv2: "hole_inv key len (f1[h1 := f1 ! ?l]) ?l"
      by (rule hole_down[OF p(3,1) lf1 l(2,3,4) mn])
    have "\<not> (1 \<le> j \<and> j < len \<and> (j - 1) div 2 = ?l)" for j
    proof
      assume j: "1 \<le> j \<and> j < len \<and> (j - 1) div 2 = ?l"
      then have "j = 2 * ?l + 1 \<or> j = 2 * ?l + 2" using children_of[of j ?l] by simp
      then show False using j l(1) True by linarith
    qed
    then have ab: "above_children key len (f1[h1 := f1 ! ?l]) ?l v"
      unfolding above_children_def by blast
    have "mset (f1[h1 := f1 ! ?l, ?l := v]) = mset (f1[h1 := v])"
      using p(1) lf1 l(3,5) by (intro mset_move) simp_all
    then have ms: "mset (f1[h1 := f1 ! ?l, ?l := v]) = mset (first[0 := v])" using p(5) by simp
    have tl: "\<forall>i. len \<le> i \<longrightarrow> f1[h1 := f1 ! ?l] ! i = first ! i" using p(1,6) by simp
    show ?thesis unfolding if_P[OF True] using l(3) inv2 ab ms tl p(4) by simp
  next
    case False
    have "\<not> (1 \<le> j \<and> j < len \<and> (j - 1) div 2 = h1)" for j
    proof
      assume j: "1 \<le> j \<and> j < len \<and> (j - 1) div 2 = h1"
      then have c: "j = 2 * h1 + 1 \<or> j = 2 * h1 + 2" using children_of[of j h1] by simp
      have "2 * h1 + 1 < len" using c j by linarith
      moreover have "\<not> 2 * h1 + 2 < len" using p(2) by linarith
      ultimately have "len = 2 * h1 + 2" by linarith
      then have "even len" "2 \<le> len" "h1 = (len - 2) div 2" by simp_all
      then show False using False by blast
    qed
    then have ab: "above_children key len f1 h1 v"
      unfolding above_children_def by blast
    show ?thesis unfolding if_not_P[OF False] using p ab by simp
  qed
  from push_heap_aux_correct[of cmp key ?h2 len ?f2 v, OF cmp] st
  have "heap_upto cmp len (libstdcxx_push_heap_aux cmp ?f2 ?h2 0 v) \<and>
        mset (libstdcxx_push_heap_aux cmp ?f2 ?h2 0 v) = mset (?f2[?h2 := v]) \<and>
        length (libstdcxx_push_heap_aux cmp ?f2 ?h2 0 v) = length ?f2 \<and>
        (\<forall>i. len \<le> i \<longrightarrow> libstdcxx_push_heap_aux cmp ?f2 ?h2 0 v ! i = ?f2 ! i)"
    using len(2) by simp
  then show ?thesis using st unfolding eq by simp
qed


text \<open>\<open>std::pop_heap\<close> of libstdc++ meets the contract.\<close>

lemma libstdcxx_pop_heap_ok:
  assumes cmp: "\<And>a b. cmp a b \<longleftrightarrow> key b < (key a :: real)"
    and ne: "c \<noteq> []" and heap: "is_heap cmp c"
  shows "mset (libstdcxx_pop_heap cmp c) = mset c"
    and "last (libstdcxx_pop_heap cmp c) = hd c"
    and "is_heap cmp (butlast (libstdcxx_pop_heap cmp c))"
proof -
  let ?n = "length c"
  let ?last = "?n - 1"
  let ?R = "libstdcxx_pop_heap cmp c"
  have "mset ?R = mset c \<and> last ?R = hd c \<and> is_heap cmp (butlast ?R)"
  proof (cases "1 < ?n")
    case False
    then have "?n = 1" using ne by (cases c) simp_all
    then obtain x where "c = [x]" by (cases c) simp_all
    then show ?thesis by (simp add: libstdcxx_pop_heap_def is_heap_def)
  next
    case True
    let ?c1 = "c[?last := c ! 0]"
    have eq: "?R = libstdcxx_adjust_heap cmp ?c1 0 ?last (c ! ?last)"
      using True by (simp add: libstdcxx_pop_heap_def Let_def)
    have l: "0 < ?last" "?last \<le> length ?c1" using True by simp_all
    have hu: "heap_upto cmp ?n c" using heap by (simp only: is_heap_upto)
    have inv: "hole_inv key ?last ?c1 0"
      unfolding hole_inv_def
    proof (intro conjI allI impI)
      fix i assume i: "1 \<le> i \<and> i < ?last \<and> i \<noteq> 0 \<and> (i - 1) div 2 \<noteq> 0"
      then have "1 \<le> i \<and> i < ?n" by linarith
      then have "\<not> cmp (c ! ((i - 1) div 2)) (c ! i)" using hu unfolding heap_upto_def by blast
      moreover have "(i - 1) div 2 < ?last" using parent_less[of i] i by simp
      ultimately show "key (?c1 ! ((i - 1) div 2)) \<le> key (?c1 ! i)" using i by (simp add: cmp)
    next
      fix j assume "1 \<le> (0::nat)"
      then show "key (?c1 ! ((0 - 1) div 2)) \<le> key (?c1 ! j)" by simp
    qed
    from adjust_heap_correct[of cmp key ?last ?c1 "c ! ?last", OF cmp l inv]
    have r: "heap_upto cmp ?last ?R" "mset ?R = mset (?c1[0 := c ! ?last])" "length ?R = ?n"
      "\<forall>i. ?last \<le> i \<longrightarrow> ?R ! i = ?c1 ! i"
      by (simp_all add: eq)
    have "mset (c[?last := c ! 0, 0 := c ! ?last]) = mset c"
      using True ne by (intro mset_swap) simp_all
    then have m: "mset ?R = mset c" using r(2) by simp
    have "?R \<noteq> []" using r(3) True by auto
    then have "last ?R = ?R ! ?last" using r(3) by (simp add: last_conv_nth)
    also have "\<dots> = ?c1 ! ?last" using r(4) by simp
    also have "\<dots> = hd c" using True ne by (simp add: hd_conv_nth)
    finally have la: "last ?R = hd c" .
    have "heap_upto cmp (length ?R - 1) ?R" using r(1,3) by simp
    then have "is_heap cmp (butlast ?R)" by (simp only: heap_upto_butlast)
    then show ?thesis using m la by simp
  qed
  then show "mset ?R = mset c" "last ?R = hd c" "is_heap cmp (butlast ?R)" by simp_all
qed

lemma gt_key: "MergeElement_gt a b \<longleftrightarrow> me_r2 b < me_r2 a"
  by (simp add: MergeElement_gt_def)

text \<open>The library with the heap functions of libstdc++ meets the contract.\<close>

lemma libstdcxx_ok: "stdlib_ok libstdcxx"
  unfolding stdlib_ok_def
proof (intro conjI allI impI)
  fix key :: "nat \<Rightarrow> real" and v
  show "mset (std_sort libstdcxx (\<lambda>a b. key a < key b) v) = mset v"
    by (simp add: libstdcxx_def mset_insertion_sort)
  show "sorted (map key (std_sort libstdcxx (\<lambda>a b. key a < key b) v))"
    by (simp add: libstdcxx_def sorted_insertion_sort)
next
  fix c :: "MergeElement list" assume c: "c \<noteq> [] \<and> is_heap MergeElement_gt (butlast c)"
  then have c1: "c \<noteq> []" and c2: "is_heap MergeElement_gt (butlast c)" by simp_all
  show "mset (std_push_heap libstdcxx MergeElement_gt c) = mset c"
    using libstdcxx_push_heap_ok(1)[OF gt_key c1 c2] by (simp add: libstdcxx_def)
  show "is_heap MergeElement_gt (std_push_heap libstdcxx MergeElement_gt c)"
    using libstdcxx_push_heap_ok(2)[OF gt_key c1 c2] by (simp add: libstdcxx_def)
next
  fix c :: "MergeElement list" assume c: "c \<noteq> [] \<and> is_heap MergeElement_gt c"
  then have c1: "c \<noteq> []" and c2: "is_heap MergeElement_gt c" by simp_all
  show "mset (std_pop_heap libstdcxx MergeElement_gt c) = mset c"
    using libstdcxx_pop_heap_ok(1)[OF gt_key c1 c2] by (simp add: libstdcxx_def)
  show "last (std_pop_heap libstdcxx MergeElement_gt c) = hd c"
    using libstdcxx_pop_heap_ok(2)[OF gt_key c1 c2] by (simp add: libstdcxx_def)
  show "is_heap MergeElement_gt (butlast (std_pop_heap libstdcxx MergeElement_gt c))"
    using libstdcxx_pop_heap_ok(3)[OF gt_key c1 c2] by (simp add: libstdcxx_def)
qed

section \<open>Ties in the k-way merge\<close>

lemma local_sort_libstdcxx: "local_sort libstdcxx ps = local_sort ref_lib ps"
  by (simp add: local_sort_def libstdcxx_def ref_lib_def)

lemma tie_wf: "shells_wf tie_shells"
  by (simp add: tie_shells_def shells_wf_def shell_at_wf)

lemma tie_r2: "\<forall>ps \<in> set tie_shells. \<forall>i < ps_n_particles ps. r2_of ps i = 1"
  unfolding tie_shells_def by (simp add: shell_at_all_r2)

lemma tie_merge: "kway_merge libstdcxx [1, 1, 1] [0, 2] [2, 1] 2 3 = Some [0, 2, 1]"
  by code_simp

lemma tie_sorted_0:
  "records (local_sort ref_lib (shell_at [(1, 0, 0, 1), (0, 1, 0, 1)] 3))
     = [[1, 0, 0, 0, 0, 0, 1, 0, 1], [0, 1, 0, 0, 0, 0, 1, 0, 1]]"
  by (simp add: local_sort_def Let_def computeSquareRadius_def ref_lib_def reorder_def
      shell_at_def ParticleSystem_ctor_def resize_def vec_resize_def records_def particle_record_def
      numeral_2_eq_2)

lemma tie_sorted_1:
  "records (local_sort ref_lib (shell_at [(0, 0, 1, 1)] 3)) = [[0, 0, 1, 0, 0, 0, 1, 0, 1]]"
  by (simp add: local_sort_def Let_def computeSquareRadius_def ref_lib_def reorder_def
      shell_at_def ParticleSystem_ctor_def resize_def vec_resize_def records_def particle_record_def)


lemma tie_chunks:
  "recv_chunks (map (local_sort ref_lib) tie_shells) 0
     = [[[1, 0, 0, 0, 0, 0, 1, 0, 1], [0, 1, 0, 0, 0, 0, 1, 0, 1]], [[0, 0, 1, 0, 0, 0, 1, 0, 1]]]"
  "recv_chunks (map (local_sort ref_lib) tie_shells) 1 = [[], []]"
proof -
  let ?sst = "map (local_sort ref_lib) tie_shells"
  have pos: "0 < sum_list (map ps_n_particles tie_shells)" by (simp add: tie_shells_def)
  have l: "length tie_shells = 2" by (simp add: tie_shells_def)
  have b: "bucket_of (splitters_of ?sst) (?sst ! s) p
           = (if p = 0 then [0..<ps_n_particles (tie_shells ! s)] else [])" if "s < 2" for s p
    by (rule all_equal_bucket[OF ref_lib_ok tie_wf tie_r2 one_le_DBL_MAX pos]) (simp add: l that)
  have c: "recv_chunks ?sst p
           = [map (particle_record (?sst ! 0)) (bucket_of (splitters_of ?sst) (?sst ! 0) p),
              map (particle_record (?sst ! 1)) (bucket_of (splitters_of ?sst) (?sst ! 1) p)]" for p
    by (simp add: recv_chunks_def l numeral_2_eq_2)
  have b00: "bucket_of (splitters_of ?sst) (?sst ! 0) 0 = [0..<ps_n_particles (tie_shells ! 0)]"
    and b10: "bucket_of (splitters_of ?sst) (?sst ! 1) 0 = [0..<ps_n_particles (tie_shells ! 1)]"
    and b01: "bucket_of (splitters_of ?sst) (?sst ! 0) 1 = []"
    and b11: "bucket_of (splitters_of ?sst) (?sst ! 1) 1 = []"
    using b[of 0 0] b[of 1 0] b[of 0 1] b[of 1 1] by simp_all
  have r0: "map (particle_record (?sst ! 0)) [0..<ps_n_particles (tie_shells ! 0)] = records (?sst ! 0)"
    and r1: "map (particle_record (?sst ! 1)) [0..<ps_n_particles (tie_shells ! 1)] = records (?sst ! 1)"
    by (simp_all add: records_def tie_shells_def)
  have s0: "records (?sst ! 0) = [[1, 0, 0, 0, 0, 0, 1, 0, 1], [0, 1, 0, 0, 0, 0, 1, 0, 1]]"
    using tie_sorted_0 by (simp add: tie_shells_def)
  have s1: "records (?sst ! 1) = [[0, 0, 1, 0, 0, 0, 1, 0, 1]]"
    using tie_sorted_1 by (simp add: tie_shells_def)
  show "recv_chunks ?sst 0
     = [[[1, 0, 0, 0, 0, 0, 1, 0, 1], [0, 1, 0, 0, 0, 0, 1, 0, 1]], [[0, 0, 1, 0, 0, 0, 1, 0, 1]]]"
    by (simp only: c b00 b10 r0 r1 s0 s1)
  show "recv_chunks ?sst 1 = [[], []]"
    by (simp only: c b01 b11 list.map)
qed

text \<open>
  C4, as the specification states it, fails. \<open>operator>\<close> compares \<open>r2\<close> only, so among equal
  \<open>r2\<close> the order is the heap's. With two ranks and three particles at \<open>r2 = 1.0\<close>, rank 0
  receives chunk 0 \<open>= (1, 0, 0), (0, 1, 0)\<close> from itself and chunk 1 \<open>= (0, 0, 1)\<close> from rank 1.
  After \<open>(1, 0, 0)\<close> is written, the queue holds \<open>(0, 0, 1)\<close> of chunk 1 and then receives
  \<open>(0, 1, 0)\<close> of chunk 0, which \<open>push_heap\<close> leaves below it: the merge order is \<open>0, 2, 1\<close>
  and the particle of chunk 1 is emitted before the pending one of chunk 0 with the same
  \<open>r2\<close>. The order \<open>(r2, chunk id)\<close> would be \<open>0, 1, 2\<close>. The heap functions are those of
  libstdc++, which meet the contract; the reference library gives the same merge order.
\<close>

theorem merge_ties_counterexample:
  "stdlib_ok libstdcxx \<and>
   map_option (map records) (sortParticlesParallel libstdcxx tie_shells)
     = Some [[[1, 0, 0, 0, 0, 0, 1, 0, 1], [0, 0, 1, 0, 0, 0, 1, 0, 1], [0, 1, 0, 0, 0, 0, 1, 0, 1]], []] \<and>
   kway_merge libstdcxx [1, 1, 1] [0, 2] [2, 1] 2 3 = Some [0, 2, 1] \<and>
   \<not> by_r2_then_chunk [1, 1, 1] [0, 2] [2, 1] 2 [0, 2, 1] \<and>
   stdlib_ok ref_lib \<and> kway_merge ref_lib [1, 1, 1] [0, 2] [2, 1] 2 3 = Some [0, 2, 1]"
proof -
  let ?sst = "map (local_sort ref_lib) tie_shells"
  let ?a = "[1, 0, 0, 0, 0, 0, 1, 0, 1] :: real list"
  let ?b = "[0, 1, 0, 0, 0, 0, 1, 0, 1] :: real list"
  let ?c = "[0, 0, 1, 0, 0, 0, 1, 0, 1] :: real list"
  let ?recs = "[?a, ?b, ?c]"
  have l: "length ?sst = 2" by (simp add: tie_shells_def)
  have rr0: "recv_records ?sst 0 = ?recs" unfolding recv_records_def tie_chunks by simp
  have rr1: "recv_records ?sst 1 = []" unfolding recv_records_def tie_chunks by simp
  have cc0: "chunk_counts ?sst 0 = [2, 1]" unfolding chunk_counts_def tie_chunks by simp
  have cc1: "chunk_counts ?sst 1 = [0, 0]" unfolding chunk_counts_def tie_chunks by simp
  have d0: "displs_of 2 [2, 1] = [0, 2]"
    by (simp add: displs_of_eq numeral_2_eq_2)
  have m: "kway_merge libstdcxx [1, 1, 1] [0, 2] [2, 1] 2 3 = Some [0, 2, 1]" by (rule tie_merge)
  have e0: "exchange_rank libstdcxx ?sst 0
            = Some (install [0, 2, 1] (length ?recs) (concat ?recs) (?sst ! 0))"
  proof -
    have "exchange_rank libstdcxx ?sst 0
          = map_option (\<lambda>merge_order. install merge_order (length ?recs) (concat ?recs) (?sst ! 0))
              (kway_merge libstdcxx (map (\<lambda>r. r ! 8) ?recs) (displs_of 2 [2, 1]) [2, 1] 2 (length ?recs))"
      using exchange_rank_eq[of 0 ?sst libstdcxx] by (simp only: l rr0 cc0)
    also have "kway_merge libstdcxx (map (\<lambda>r. r ! 8) ?recs) (displs_of 2 [2, 1]) [2, 1] 2 (length ?recs)
               = Some [0, 2, 1]"
    proof -
      have "map (\<lambda>r. r ! 8) ?recs = [1, 1, 1]" "length ?recs = 3" by simp_all
      then show ?thesis by (simp only: d0 m)
    qed
    finally show ?thesis by simp
  qed
  have e1: "exchange_rank libstdcxx ?sst 1 = Some (install [] (length ([] :: real list list)) (concat []) (?sst ! 1))"
    using exchange_rank_eq[of 1 ?sst libstdcxx] by (simp only: l rr1 cc1) (simp add: kway_merge_def)
  have rec0: "records (install [0, 2, 1] (length ?recs) (concat ?recs) (?sst ! 0)) = [?a, ?c, ?b]"
    by (subst install_records(1)) (simp_all add: num_fields_def)
  have rec1: "records (install [] (length ([] :: real list list)) (concat []) (?sst ! 1)) = []"
    by (subst install_records(1)) simp_all
  have "sortParticlesParallel libstdcxx tie_shells
        = all_ranks [exchange_rank libstdcxx ?sst 0, exchange_rank libstdcxx ?sst 1]"
    by (simp add: sortParticlesParallel_def local_sort_libstdcxx tie_shells_def numeral_2_eq_2 Let_def)
  then have "map_option (map records) (sortParticlesParallel libstdcxx tie_shells)
             = Some [[?a, ?c, ?b], []]"
    by (simp only: e0 e1 all_ranks.simps option.map list.map rec0 rec1)
  moreover have "\<not> by_r2_then_chunk [1, 1, 1] [0, 2] [2, 1] 2 [0, 2, 1]"
    by (simp add: by_r2_then_chunk_def chunk_of_def in_chunk_def numeral_2_eq_2)
  moreover have "kway_merge ref_lib [1, 1, 1] [0, 2] [2, 1] 2 3 = Some [0, 2, 1]" by code_simp
  ultimately show ?thesis using ref_lib_ok libstdcxx_ok by (simp only: m simp_thms)
qed

section \<open>The order of the merge within a chunk\<close>

text \<open>One round of the merge loop: the chunk \<open>c\<close> of the top element, what is written, and the next state.\<close>

lemma merge_step:
  assumes lib: "stdlib_ok lib" and inv: "merge_inv r2 displs counts m A pq cp" and ne: "pq \<noteq> []"
  shows "\<exists>c \<in> A. \<exists>A' pq' cp'.
           merge_loop lib r2 displs counts (Suc free) pq cp
             = map_option ((#) (cp ! c - 1)) (merge_loop lib r2 displs counts free pq' cp') \<and>
           merge_inv r2 displs counts m A' pq' cp' \<and>
           ((cp ! c < displs ! c + counts ! c \<and> A' = A \<and> cp' = cp[c := cp ! c + 1]) \<or>
            (cp ! c = displs ! c + counts ! c \<and> A' = A - {c} \<and> cp' = cp))"
proof -
  have fin: "finite A" and sub: "A \<subseteq> {..<m}" and len: "length cp = m"
    and heap: "is_heap MergeElement_gt pq"
    and ms: "mset pq = image_mset (elem_at r2 cp) (mset_set A)"
    and inA: "\<forall>c \<in> A. displs ! c < cp ! c \<and> cp ! c \<le> displs ! c + counts ! c"
    and notA: "\<forall>c < m. c \<notin> A \<longrightarrow> cp ! c = displs ! c + counts ! c"
    using inv by (simp_all add: merge_inv_def)
  obtain c where cA: "c \<in> A" and top: "pq_top pq = elem_at r2 cp c"
    using inv_top[OF inv ne] by blast
  have cm: "c < m" using cA sub by auto
  define pq' where "pq' = pq_pop lib pq"
  have pop: "mset pq = add_mset (pq_top pq) (mset pq')" and heap': "is_heap MergeElement_gt pq'"
    unfolding pq'_def using pq_pop_props[OF lib heap ne] by simp_all
  have A_split: "mset_set A = add_mset c (mset_set (A - {c}))"
    using fin cA by (rule mset_set.remove)
  have ms': "mset pq' = image_mset (elem_at r2 cp) (mset_set (A - {c}))"
    using pop ms top by (simp add: A_split)
  have idx: "me_source_idx (pq_top pq) = cp ! c - 1" and chk: "me_chunk_id (pq_top pq) = c"
    by (simp_all add: top elem_at_def)
  show ?thesis
  proof (cases "cp ! c < displs ! c + counts ! c")
    case True
    define cp' where "cp' = cp[c := cp ! c + 1]"
    define next_elem where "next_elem = \<lparr>me_r2 = r2 ! (cp ! c), me_source_idx = cp ! c, me_chunk_id = c\<rparr>"
    define pq'' where "pq'' = pq_push lib next_elem pq'"
    have nx: "next_elem = elem_at r2 cp' c"
      using cm len by (simp add: next_elem_def elem_at_def cp'_def)
    have push: "mset pq'' = add_mset next_elem (mset pq')" and heap'': "is_heap MergeElement_gt pq''"
      unfolding pq''_def using pq_push_props[OF lib heap'] by simp_all
    have cong1: "image_mset (elem_at r2 cp') (mset_set (A - {c}))
                 = image_mset (elem_at r2 cp) (mset_set (A - {c}))"
      using fin by (intro image_mset_cong) (simp add: cp'_def elem_at_update_other)
    have ms'': "mset pq'' = image_mset (elem_at r2 cp') (mset_set A)"
      by (simp add: push ms' A_split nx cong1)
    have inv': "merge_inv r2 displs counts m A pq'' cp'"
      unfolding merge_inv_def
    proof (intro conjI)
      show "\<forall>k \<in> A. displs ! k < cp' ! k \<and> cp' ! k \<le> displs ! k + counts ! k"
        using inA True cm len by (auto simp: cp'_def nth_list_update)
      show "\<forall>k < m. k \<notin> A \<longrightarrow> cp' ! k = displs ! k + counts ! k"
      proof (intro allI impI)
        fix k assume k: "k < m" "k \<notin> A"
        then have "k \<noteq> c" using cA by auto
        then show "cp' ! k = displs ! k + counts ! k" using notA k by (simp add: cp'_def)
      qed
    qed (simp_all add: fin sub len cp'_def heap'' ms''[unfolded cp'_def])
    have "cp[c := Suc (cp ! c)] = cp'" by (simp add: cp'_def)
    then have "merge_loop lib r2 displs counts (Suc free) pq cp
          = map_option ((#) (cp ! c - 1)) (merge_loop lib r2 displs counts free pq'' cp')"
      using ne True
      by (simp add: Let_def idx chk pq'_def[symmetric] next_elem_def[symmetric] pq''_def[symmetric])
    then show ?thesis using cA inv' True unfolding cp'_def by blast
  next
    case False
    then have ce: "cp ! c = displs ! c + counts ! c" using inA cA by force
    have inv': "merge_inv r2 displs counts m (A - {c}) pq' cp"
      unfolding merge_inv_def
      using fin sub len heap' ms' inA notA ce by auto
    have "merge_loop lib r2 displs counts (Suc free) pq cp
          = map_option ((#) (cp ! c - 1)) (merge_loop lib r2 displs counts free pq' cp)"
      using ne False by (simp add: Let_def idx chk pq'_def[symmetric])
    then show ?thesis using cA inv' ce by blast
  qed
qed

text \<open>What the loop writes of chunk \<open>k\<close>: the pending element, then the unread ones, in their order.\<close>

lemma merge_loop_chunk_order:
  assumes lib: "stdlib_ok lib" and disj: "chunks_disjoint displs counts m"
  shows "merge_inv r2 displs counts m A pq cp \<Longrightarrow>
         merge_loop lib r2 displs counts free pq cp = Some out \<Longrightarrow> k < m \<Longrightarrow>
         filter (in_chunk displs counts k) out
           = (if k \<in> A then [cp ! k - 1] else []) @ [cp ! k..<displs ! k + counts ! k]"
proof (induction free arbitrary: A pq cp out)
  case 0
  from 0(2) have pq: "pq = []" and out: "out = []" by (simp_all split: if_splits)
  have "finite A" "mset pq = image_mset (elem_at r2 cp) (mset_set A)"
    and notA: "\<forall>c < m. c \<notin> A \<longrightarrow> cp ! c = displs ! c + counts ! c"
    using 0(1) by (simp_all add: merge_inv_def)
  then have "A = {}" using pq by (simp add: mset_set_empty_iff)
  then show ?case using notA 0(3) by (simp add: out)
next
  case (Suc free)
  note inv = Suc.prems(1)
  have fin: "finite A" and sub: "A \<subseteq> {..<m}"
    and ms: "mset pq = image_mset (elem_at r2 cp) (mset_set A)"
    and inA: "\<forall>c \<in> A. displs ! c < cp ! c \<and> cp ! c \<le> displs ! c + counts ! c"
    and notA: "\<forall>c < m. c \<notin> A \<longrightarrow> cp ! c = displs ! c + counts ! c"
    and len: "length cp = m"
    using inv by (simp_all add: merge_inv_def)
  show ?case
  proof (cases "pq = []")
    case True
    then have out: "out = []" using Suc.prems(2) by simp
    have "mset_set A = {#}" using ms True by simp
    then have "A = {}" using fin by (simp add: mset_set_empty_iff)
    then show ?thesis using notA Suc.prems(3) by (simp add: out)
  next
    case False
    from merge_step[OF lib inv False, of free] obtain c A' pq' cp' where
      cA: "c \<in> A"
      and step: "merge_loop lib r2 displs counts (Suc free) pq cp
                 = map_option ((#) (cp ! c - 1)) (merge_loop lib r2 displs counts free pq' cp')"
      and inv': "merge_inv r2 displs counts m A' pq' cp'"
      and cases: "(cp ! c < displs ! c + counts ! c \<and> A' = A \<and> cp' = cp[c := cp ! c + 1]) \<or>
                  (cp ! c = displs ! c + counts ! c \<and> A' = A - {c} \<and> cp' = cp)"
      by blast
    from step Suc.prems(2) obtain out' where
      out': "merge_loop lib r2 displs counts free pq' cp' = Some out'" "out = (cp ! c - 1) # out'"
      by auto
    note IH = Suc.IH[OF inv' out'(1) Suc.prems(3)]
    have cm: "c < m" using cA sub by auto
    have inc: "in_chunk displs counts c (cp ! c - 1)"
      using inA cA by (auto simp: in_chunk_def)
    show ?thesis
    proof (cases "k = c")
      case True
      from cases show ?thesis
      proof
        assume a: "cp ! c < displs ! c + counts ! c \<and> A' = A \<and> cp' = cp[c := cp ! c + 1]"
        then have "cp' ! c = cp ! c + 1" using cm len by simp
        moreover have "[cp ! c..<displs ! c + counts ! c] = cp ! c # [cp ! c + 1..<displs ! c + counts ! c]"
          using a by (simp add: upt_conv_Cons)
        ultimately show ?thesis using IH a cA inc True by (simp add: out'(2))
      next
        assume a: "cp ! c = displs ! c + counts ! c \<and> A' = A - {c} \<and> cp' = cp"
        then show ?thesis using IH cA inc True by (simp add: out'(2))
      qed
    next
      case False
      have "\<not> in_chunk displs counts k (cp ! c - 1)"
        using disj inc cm Suc.prems(3) False unfolding chunks_disjoint_def by blast
      moreover have "cp' ! k = cp ! k" using cases False by auto
      moreover have "k \<in> A' \<longleftrightarrow> k \<in> A" using cases False by auto
      ultimately show ?thesis using IH by (simp add: out'(2))
    qed
  qed
qed


lemma sum_list_take_mono:
  "c \<le> c' \<Longrightarrow> sum_list (take c counts) \<le> sum_list (take c' (counts :: nat list))"
proof -
  assume "c \<le> c'"
  then have "take c' counts = take c counts @ take (c' - c) (drop c counts)"
    using take_add[of c "c' - c" counts] by simp
  then show ?thesis by simp
qed

lemma displs_disjoint:
  assumes lc: "length counts = m"
  shows "chunks_disjoint (displs_of m counts) counts m"
proof -
  have d: "displs_of m counts ! c = sum_list (take c counts)" if "c < m" for c
    using that by (simp add: displs_of_eq[OF lc])
  have 1: "\<not> in_chunk (displs_of m counts) counts c' j"
    if c: "c < c'" "c' < m" and j: "in_chunk (displs_of m counts) counts c j" for c c' j
  proof -
    have cm: "c < m" using c by simp
    have "j < sum_list (take (Suc c) counts)"
      using j d[OF cm] sum_list_take_Suc[of c counts] cm lc by (simp add: in_chunk_def)
    also have "\<dots> \<le> sum_list (take c' counts)" using c(1) by (intro sum_list_take_mono) simp
    finally show ?thesis using d[OF c(2)] by (simp add: in_chunk_def)
  qed
  show ?thesis
    unfolding chunks_disjoint_def
  proof (intro allI impI)
    fix c c' j
    assume c: "c < m" "c' < m" "c \<noteq> c'" and j: "in_chunk (displs_of m counts) counts c j"
    show "\<not> in_chunk (displs_of m counts) counts c' j"
    proof (cases "c < c'")
      case True
      then show ?thesis using 1 c j by blast
    next
      case False
      then have "c' < c" using c(3) by simp
      then show ?thesis using 1[OF _ c(1)] j by blast
    qed
  qed
qed

text \<open>
  C4, as the code has it. The queue is ordered by \<open>r2\<close> alone. For every priority queue that
  meets the standard's contract the merge returns, and its \<open>merge_order\<close> is a permutation of
  the received positions in non-decreasing \<open>r2\<close> in which the elements of each chunk keep their
  order. Which of two elements of equal \<open>r2\<close> from different chunks comes first is left to the
  heap: no tie-break on the chunk id exists.
\<close>

theorem kway_merge_order:
  assumes "stdlib_ok lib" and "length counts = m"
    and "chunks_sorted r2 (displs_of m counts) counts m"
  shows "\<exists>mo. kway_merge lib r2 (displs_of m counts) counts m (sum_list counts) = Some mo \<and>
              mset mo = mset [0..<sum_list counts] \<and> sorted (map ((!) r2) mo) \<and>
              (\<forall>k < m. filter (in_chunk (displs_of m counts) counts k) mo
                         = [displs_of m counts ! k..<displs_of m counts ! k + counts ! k])"
proof (cases "sum_list counts > 0")
  case False
  then have z: "sum_list counts = 0" by simp
  then have "\<forall>k < m. counts ! k = 0" using assms(2) by (auto simp: sum_list_eq_0_iff)
  moreover have "kway_merge lib r2 (displs_of m counts) counts m 0 = Some []"
    by (simp add: kway_merge_def)
  ultimately show ?thesis by (simp add: z)
next
  case True
  note lib = assms(1) and lc = assms(2) and srt = assms(3)
  let ?d = "displs_of m counts"
  let ?N = "sum_list counts"
  have ld: "length ?d = m" by (simp add: displs_of_eq[OF lc])
  obtain pq cp where st: "merge_init lib r2 ?d counts m = (pq, cp)"
    by (cases "merge_init lib r2 ?d counts m") auto
  have "init_inv r2 ?d counts m m (pq, cp)"
    using merge_init_inv[OF lib ld, of m r2 counts] by (simp add: merge_init_def st[symmetric])
  then have len: "length cp = m" and heap: "is_heap MergeElement_gt pq"
    and ms: "mset pq = image_mset (elem_at r2 cp) (mset_set (started counts m))"
    and pos: "\<forall>c < m. cp ! c = (if c \<in> started counts m then ?d ! c + 1 else ?d ! c)"
    and rem: "remaining ?d counts m (started counts m) cp = unread ?d counts m ?d"
    by (simp_all add: init_inv_def)
  have inv: "merge_inv r2 ?d counts m (started counts m) pq cp"
    unfolding merge_inv_def
  proof (intro conjI)
    show "started counts m \<subseteq> {..<m}" by (auto simp: started_def)
    show "\<forall>c \<in> started counts m. ?d ! c < cp ! c \<and> cp ! c \<le> ?d ! c + counts ! c"
      using pos by (auto simp: started_def)
    show "\<forall>c < m. c \<notin> started counts m \<longrightarrow> cp ! c = ?d ! c + counts ! c"
      using pos by (auto simp: started_def)
  qed (simp_all add: len heap ms)
  have rem': "remaining ?d counts m (started counts m) cp = mset [0..<?N]"
    using rem unread_full[OF lc] by simp
  then have "size (remaining ?d counts m (started counts m) cp) \<le> ?N" by simp
  from merge_loop_correct[OF lib srt inv this] obtain out where
    out: "merge_loop lib r2 ?d counts ?N pq cp = Some out"
         "mset out = remaining ?d counts m (started counts m) cp" "sorted (map ((!) r2) out)"
    by blast
  have "size (mset out) = size (mset [0..<?N])" by (simp only: out(2) rem')
  then have "length out = ?N" by simp
  then have km: "kway_merge lib r2 ?d counts m ?N = Some out"
    using True out(1) by (simp add: kway_merge_def st)
  have "filter (in_chunk ?d counts k) out = [?d ! k..<?d ! k + counts ! k]" if k: "k < m" for k
  proof -
    have "filter (in_chunk ?d counts k) out
          = (if k \<in> started counts m then [cp ! k - 1] else []) @ [cp ! k..<?d ! k + counts ! k]"
      by (rule merge_loop_chunk_order[OF lib displs_disjoint[OF lc] inv out(1) k])
    also have "\<dots> = [?d ! k..<?d ! k + counts ! k]"
    proof (cases "k \<in> started counts m")
      case True
      then have "0 < counts ! k" by (simp add: started_def)
      then have "[?d ! k..<?d ! k + counts ! k] = ?d ! k # [?d ! k + 1..<?d ! k + counts ! k]"
        by (simp add: upt_conv_Cons)
      then show ?thesis using True pos k by simp
    next
      case False
      then have "counts ! k = 0" using k by (simp add: started_def)
      then show ?thesis using False pos k by simp
    qed
    finally show ?thesis .
  qed
  then show ?thesis using km out rem' by simp
qed

lemma chunks_132: "chunks_sorted [1, 3, 2] (displs_of 2 [2, 1]) [2, 1] 2"
proof -
  have d: "displs_of 2 [2, 1] = [0, 2]" by (simp add: displs_of_eq numeral_2_eq_2)
  have "([1, 3, 2] :: real list) ! i \<le> [1, 3, 2] ! j"
    if "[0, 2] ! c \<le> i" "i \<le> j" "j < [0, 2] ! c + [2, 1] ! c" "c < 2" for c i j :: nat
  proof -
    from that(4) consider "c = 0" | "c = 1" by linarith
    then show ?thesis
    proof cases
      case 1
      then have "(i = 0 \<and> j = 0) \<or> (i = 0 \<and> j = 1) \<or> (i = 1 \<and> j = 1)" using that by auto
      then show ?thesis by auto
    next
      case 2
      then have "j = 2" "i = 2" using that by auto
      then show ?thesis by simp
    qed
  qed
  then show ?thesis unfolding chunks_sorted_def d by blast
qed

theorem kway_merge_order_witness:
  "stdlib_ok ref_lib \<and> length [2, 1 :: nat] = 2 \<and>
   chunks_sorted [1, 3, 2] (displs_of 2 [2, 1]) [2, 1] 2 \<and>
   (\<exists>mo. kway_merge ref_lib [1, 3, 2] (displs_of 2 [2, 1]) [2, 1] 2 (sum_list [2, 1]) = Some mo \<and>
         mset mo = mset [0..<sum_list [2, 1]] \<and> sorted (map ((!) [1, 3, 2 :: real]) mo) \<and>
         (\<forall>k < 2. filter (in_chunk (displs_of 2 [2, 1]) [2, 1] k) mo
                    = [displs_of 2 [2, 1] ! k..<displs_of 2 [2, 1] ! k + [2, 1] ! k]))"
proof -
  have l: "length [2, 1 :: nat] = 2" by simp
  from kway_merge_order [OF ref_lib_ok l chunks_132] ref_lib_ok l chunks_132
  show ?thesis by (simp only: simp_thms)
qed

end
